theory Spec2Isabelle
  imports Complex_Main "HOL-Library.Multiset" "HOL-Library.AList" "HOL-Library.Log_Nat"
begin

section \<open>Data model\<close>

text \<open>
  The program of \<^verbatim>\<open>src/code/code.py\<close> infers a semantic map: an undirected graph over
  concept labels. Concepts and languages are Python strings; a candidate edge is a
  2-tuple of concepts.
\<close>

type_synonym concept = string
type_synonym edge = "concept \<times> concept"

text \<open>The exceptions the modelled statements can raise.\<close>

datatype error =
  NameError | ValueError | KeyError | NetworkXError | IndexError | FileNotFoundError
  | ZeroDivisionError | OverflowError

text \<open>
  \<^verbatim>\<open>nx.Graph\<close>: the library keeps nodes and adjacency in insertion-ordered dictionaries.
  The model keeps the node labels in insertion order and the undirected edges, each once,
  in the order in which they were added, with the orientation in which they were added.
\<close>

record graph =
  gnodes :: "concept list"
  gedges :: "edge list"

definition languages :: "string list" where
  "languages = [''Rapanui'', ''Lezgian'', ''Sherbro'', ''Nuer'', ''Palula'', ''Mauwake'',
     ''Mawng'', ''Yir-Yoront'', ''Cusco Quechua'', ''Paraguayan Guarani'', ''Lakota'',
     ''Passamaquoddy-melecite'']"

definition nodes :: "concept list" where
  "nodes = [''LOVE'', ''HAPPYNESS'', ''ANGER'', ''MISSING'', ''FEAR'', ''WORRY'', ''SHAME'',
     ''SURPRISE'', ''TRUST'', ''RESPECT'', ''SADNESS'', ''PITY'']"

section \<open>The graph library operations the program calls\<close>

definition empty_graph :: graph where
  "empty_graph = \<lparr>gnodes = [], gedges = []\<rparr>"

definition has_node :: "graph \<Rightarrow> concept \<Rightarrow> bool" where
  "has_node g n = (n \<in> set (gnodes g))"

definition add_node :: "graph \<Rightarrow> concept \<Rightarrow> graph" where
  "add_node g n = (if has_node g n then g else g\<lparr>gnodes := gnodes g @ [n]\<rparr>)"

definition has_edge :: "graph \<Rightarrow> concept \<Rightarrow> concept \<Rightarrow> bool" where
  "has_edge g u v = ((u, v) \<in> set (gedges g) \<or> (v, u) \<in> set (gedges g))"

text \<open>\<^verbatim>\<open>G.add_edge(u, v)\<close> adds the end points that are not yet nodes, then the edge
  unless it is there already (in either orientation).\<close>

definition add_edge :: "graph \<Rightarrow> edge \<Rightarrow> graph" where
  "add_edge g e = (case e of (u, v) \<Rightarrow>
     (let g1 = add_node (add_node g u) v
      in if has_edge g1 u v then g1 else g1\<lparr>gedges := gedges g1 @ [(u, v)]\<rparr>))"

text \<open>\<^verbatim>\<open>G.remove_edge(u, v)\<close> raises \<^verbatim>\<open>NetworkXError\<close> when there is no such edge; the
  end points stay nodes of the graph.\<close>

definition remove_edge :: "graph \<Rightarrow> edge \<Rightarrow> error + graph" where
  "remove_edge g e = (case e of (u, v) \<Rightarrow>
     (if has_edge g u v
      then Inr (g\<lparr>gedges := filter (\<lambda>x. x \<noteq> (u, v) \<and> x \<noteq> (v, u)) (gedges g)\<rparr>)
      else Inl NetworkXError))"

text \<open>\<^verbatim>\<open>G.subgraph(c)\<close>: the nodes of \<open>G\<close> that occur in \<open>c\<close> and the edges of \<open>G\<close> between
  them. Labels of \<open>c\<close> that are not nodes of \<open>G\<close> are ignored.\<close>

definition subgraph :: "graph \<Rightarrow> concept list \<Rightarrow> graph" where
  "subgraph g c = \<lparr>gnodes = filter (\<lambda>n. n \<in> set c) (gnodes g),
                   gedges = filter (\<lambda>e. fst e \<in> set c \<and> snd e \<in> set c) (gedges g)\<rparr>"

text \<open>
  Connected components, computed by merging blocks: every node starts in a block of its
  own, and every edge joins the blocks of its two end points. The lemma
  \<open>connected_components_correct\<close> below shows that two nodes end in one block exactly
  when a chain of edges leads from one to the other.
\<close>

definition join :: "concept \<Rightarrow> concept \<Rightarrow> concept list list \<Rightarrow> concept list list" where
  "join u v P =
     (if (\<exists>b \<in> set P. u \<in> set b) \<and> (\<exists>b \<in> set P. v \<in> set b)
      then concat (filter (\<lambda>b. u \<in> set b \<or> v \<in> set b) P)
             # filter (\<lambda>b. \<not> (u \<in> set b \<or> v \<in> set b)) P
      else P)"

definition connected_components :: "graph \<Rightarrow> concept list list" where
  "connected_components g =
     fold (\<lambda>e P. join (fst e) (snd e) P) (gedges g) (map (\<lambda>n. [n]) (gnodes g))"

text \<open>\<^verbatim>\<open>nx.number_connected_components\<close> counts the components; the graph without
  nodes has none.\<close>

definition number_connected_components :: "graph \<Rightarrow> nat" where
  "number_connected_components g = length (connected_components g)"

section \<open>The functions of the program\<close>

text \<open>\<^verbatim>\<open>allpairs(seq)\<close>: the generator of all pairs \<open>(seq[i], seq[j])\<close> with \<open>i < j\<close>, in
  the order of the two nested loops.\<close>

fun allpairs :: "'a list \<Rightarrow> ('a \<times> 'a) list" where
  "allpairs [] = []"
| "allpairs (x # xs) = map (Pair x) xs @ allpairs xs"

text \<open>
  \<^verbatim>\<open>C(g, s)\<close>: the connectedness function. The body never reads its parameter \<open>g\<close>; the
  subgraph is taken on the module-level variable \<^verbatim>\<open>G\<close>, whose current value is the
  first argument \<open>gr\<close> of the model.
\<close>

definition C :: "graph \<Rightarrow> graph \<Rightarrow> concept list list \<Rightarrow> int" where
  "C gr g s = fold (\<lambda>c total.
       (let ncc = number_connected_components (subgraph gr c)
        in total + (1 - int ncc))) s 0"

subsection \<open>The random module\<close>

text \<open>
  The generator is a supply of natural numbers; a draw below \<open>n\<close> takes the next one
  modulo \<open>n\<close>, and an exhausted supply keeps answering 0. \<^verbatim>\<open>random.choices\<close> draws
  \<open>k\<close> indices into the population, \<^verbatim>\<open>random.shuffle\<close> is the in-place Fisher-Yates
  loop \<^verbatim>\<open>for i in reversed(range(1, len(x))): j = randbelow(i + 1); x[i], x[j] = x[j], x[i]\<close>.
\<close>

type_synonym rng = "nat list"

definition randbelow :: "rng \<Rightarrow> nat \<Rightarrow> nat \<times> rng" where
  "randbelow r n = (case r of [] \<Rightarrow> (0, []) | x # r' \<Rightarrow> (x mod n, r'))"

fun choices :: "rng \<Rightarrow> 'a list \<Rightarrow> nat \<Rightarrow> error + ('a list \<times> rng)" where
  "choices r pop 0 = Inr ([], r)"
| "choices r pop (Suc k) =
     (if pop = [] then Inl IndexError
      else (case randbelow r (length pop) of (i, r1) \<Rightarrow>
        (case choices r1 pop k of Inl err \<Rightarrow> Inl err
         | Inr (xs, r2) \<Rightarrow> Inr (pop ! i # xs, r2))))"

fun shuffle_from :: "nat \<Rightarrow> rng \<Rightarrow> 'a list \<Rightarrow> 'a list \<times> rng" where
  "shuffle_from 0 r xs = (xs, r)"
| "shuffle_from (Suc i) r xs =
     (case randbelow r (Suc i + 1) of (j, r1) \<Rightarrow>
        shuffle_from i r1 (xs[Suc i := xs ! j, j := xs ! Suc i]))"

definition shuffle :: "rng \<Rightarrow> 'a list \<Rightarrow> 'a list \<times> rng" where
  "shuffle r xs = shuffle_from (length xs - 1) r xs"

subsection \<open>Reading the isolectic sets\<close>

text \<open>
  A file is the list of its lines, a line a string of characters; each \<open>char\<close> stands
  for one character of the decoded text, with a code point below 256. \<^verbatim>\<open>line.strip()\<close>
  drops the white space at both ends, \<^verbatim>\<open>line.split("\t")\<close> splits at every tab and
  returns at least one field.
\<close>

definition isspace :: "char \<Rightarrow> bool" where
  "isspace c = (c \<in> {CHR 0x09, CHR 0x0A, CHR 0x0B, CHR 0x0C, CHR 0x0D, CHR 0x1C, CHR 0x1D,
     CHR 0x1E, CHR 0x1F, CHR 0x20, CHR 0x85, CHR 0xA0})"

definition strip :: "string \<Rightarrow> string" where
  "strip s = rev (dropWhile isspace (rev (dropWhile isspace s)))"

fun split_tab :: "string \<Rightarrow> string \<Rightarrow> string list" where
  "split_tab acc [] = [acc]"
| "split_tab acc (c # cs) =
     (if c = CHR 0x09 then acc # split_tab [] cs else split_tab (acc @ [c]) cs)"

text \<open>
  \<^verbatim>\<open>fields[2][1:-1].split(", ")\<close> drops the first and the last character of the sense
  field \<^verbatim>\<open>{SENSE1, SENSE2, ...}\<close> and splits at every comma followed by a space, so it
  never returns the empty list.
\<close>

fun split_comma :: "string \<Rightarrow> string \<Rightarrow> string list" where
  "split_comma acc [] = [acc]"
| "split_comma acc [c] = [acc @ [c]]"
| "split_comma acc (c # d # cs) =
     (if c = CHR '','' \<and> d = CHR '' '' then acc # split_comma [] cs
      else split_comma (acc @ [c]) (d # cs))"

definition senses_of :: "string \<Rightarrow> concept list" where
  "senses_of field = split_comma [] (butlast (tl field))"

text \<open>
  The body of \<^verbatim>\<open>for line in isolectic_set_file\<close>: the senses of the line are appended to
  \<open>T\<close> once per occurrence of the line's language in the draw \<open>L\<close>. A line whose language
  was drawn needs its second and third field: \<^verbatim>\<open>fields[1]\<close> and \<^verbatim>\<open>fields[2]\<close> raise
  \<^verbatim>\<open>IndexError\<close> on a shorter line. The list \<^verbatim>\<open>N\<close> of lemmas is filled and never read,
  and is left out, as are the \<^verbatim>\<open>print\<close> statements.
\<close>

definition read_line ::
  "string list \<Rightarrow> string \<Rightarrow> concept list list \<Rightarrow> error + concept list list" where
  "read_line L line T =
     (case split_tab [] (strip line) of
        [] \<Rightarrow> Inl IndexError
      | f0 # rest \<Rightarrow>
         (let num_L = count_list L f0
          in if num_L = 0 then Inr T
             else (case rest of
                     [] \<Rightarrow> Inl IndexError
                   | [f1] \<Rightarrow> Inl IndexError
                   | f1 # f2 # others \<Rightarrow> Inr (T @ replicate num_L (senses_of f2)))))"

fun read_lines ::
  "string list \<Rightarrow> string list \<Rightarrow> concept list list \<Rightarrow> error + concept list list" where
  "read_lines L [] T = Inr T"
| "read_lines L (line # lines) T =
     (case read_line L line T of Inl err \<Rightarrow> Inl err | Inr T' \<Rightarrow> read_lines L lines T')"

definition read_data :: "string list \<Rightarrow> string list \<Rightarrow> error + concept list list" where
  "read_data L lines = read_lines L lines []"

subsection \<open>The initial graph and the candidate edges\<close>

definition add_pair :: "edge \<Rightarrow> edge list \<Rightarrow> edge list" where
  "add_pair pair P = (case pair of (u, v) \<Rightarrow>
     (if \<not> ((u, v) \<in> set P \<or> (v, u) \<in> set P) then P @ [(u, v)] else P))"

definition add_term :: "concept list \<Rightarrow> graph \<times> edge list \<Rightarrow> graph \<times> edge list" where
  "add_term t s = (case s of (g, P) \<Rightarrow>
     (fold (\<lambda>n g. if \<not> has_node g n then add_node g n else g) t g,
      fold add_pair (allpairs t) P))"

definition initial_graph :: "concept list list \<Rightarrow> graph \<times> edge list" where
  "initial_graph T = fold add_term T (empty_graph, [])"

subsection \<open>The greedy loop\<close>

text \<open>
  The variables the main loop works on: the module-level graph \<^verbatim>\<open>G\<close>, the candidate
  list \<^verbatim>\<open>PossE\<close>, \<^verbatim>\<open>max_edge\<close> (unbound until its first assignment, and never reset
  afterwards, not even between bootstrap rounds) and \<^verbatim>\<open>objfn\<close>.
\<close>

record state =
  G :: graph
  PossE :: "edge list"
  max_edge :: "edge option"
  objfn :: int

text \<open>The \<^verbatim>\<open>for e in PossE\<close> loop: each candidate is added to the graph, scored and
  removed again; the triple carries the graph, \<^verbatim>\<open>max_score\<close> and \<^verbatim>\<open>max_edge\<close>.\<close>

fun try_edges ::
  "concept list list \<Rightarrow> int \<Rightarrow> edge list \<Rightarrow> graph \<times> int \<times> edge option
     \<Rightarrow> error + (graph \<times> int \<times> edge option)" where
  "try_edges T obj [] acc = Inr acc"
| "try_edges T obj (e # es) (g, max_score, me) =
     (let g1 = add_edge g e; score = C g1 g1 T - obj
      in case remove_edge g1 e of
           Inl err \<Rightarrow> Inl err
         | Inr g2 \<Rightarrow>
             try_edges T obj es
               (if score > max_score then (g2, score, Some e) else (g2, max_score, me)))"

text \<open>One round of the \<^verbatim>\<open>while\<close> loop. Printing \<^verbatim>\<open>max_edge\<close> raises \<^verbatim>\<open>NameError\<close> when it
  was never assigned; \<^verbatim>\<open>PossE.remove\<close> raises \<^verbatim>\<open>ValueError\<close> when the edge is not in the
  list.\<close>

definition greedy_step :: "concept list list \<Rightarrow> rng \<Rightarrow> state \<Rightarrow> error + (state \<times> rng)" where
  "greedy_step T r st =
     (case shuffle r (PossE st) of (P, r1) \<Rightarrow>
       (case try_edges T (objfn st) P (G st, 0, max_edge st) of
          Inl err \<Rightarrow> Inl err
        | Inr (g, max_score, me) \<Rightarrow>
           (case me of
              None \<Rightarrow> Inl NameError
            | Some e \<Rightarrow>
               (let g' = add_edge g e
                in if e \<in> set P
                   then Inr (\<lparr>G = g', PossE = remove1 e P, max_edge = Some e,
                              objfn = C g' g' T\<rparr>, r1)
                   else Inl ValueError))))"

text \<open>A shuffle permutes the list, so the \<^verbatim>\<open>while\<close> loop below ends: every round
  that does not raise removes one candidate.\<close>

lemma randbelow_less: "0 < n \<Longrightarrow> fst (randbelow r n) < n"
  by (cases r) (simp_all add: randbelow_def)

lemma shuffle_from_mset:
  "i < length xs \<Longrightarrow> mset (fst (shuffle_from i r xs)) = mset xs"
proof (induction i arbitrary: r xs)
  case 0
  then show ?case by simp
next
  case (Suc i)
  obtain j r1 where rb: "randbelow r (Suc i + 1) = (j, r1)"
    by (cases "randbelow r (Suc i + 1)")
  have "fst (randbelow r (Suc i + 1)) < Suc i + 1" by (rule randbelow_less) simp
  with rb Suc.prems have j: "j < length xs" by simp
  let ?ys = "xs[Suc i := xs ! j, j := xs ! Suc i]"
  have "mset ?ys = mset xs" using Suc.prems j by (simp add: mset_swap)
  moreover have "mset (fst (shuffle_from i r1 ?ys)) = mset ?ys"
    using Suc.prems by (intro Suc.IH) simp
  ultimately show ?case using rb by simp
qed

lemma shuffle_mset: "shuffle r xs = (P, r1) \<Longrightarrow> mset P = mset xs"
proof -
  assume a: "shuffle r xs = (P, r1)"
  show ?thesis
  proof (cases xs)
    case Nil
    with a show ?thesis by (simp add: shuffle_def)
  next
    case (Cons x xs')
    then have "length xs - 1 < length xs" by simp
    from shuffle_from_mset [OF this, of r] a show ?thesis by (simp add: shuffle_def)
  qed
qed

lemma shuffle_length: "shuffle r xs = (P, r1) \<Longrightarrow> length P = length xs"
  by (drule shuffle_mset) (rule mset_eq_length)

lemma shuffle_set: "shuffle r xs = (P, r1) \<Longrightarrow> set P = set xs"
  by (drule shuffle_mset) (rule mset_eq_setD)

lemma shuffle_distinct: "shuffle r xs = (P, r1) \<Longrightarrow> distinct P = distinct xs"
  by (drule shuffle_mset) (rule mset_eq_imp_distinct_iff)

lemma greedy_step_PossE:
  assumes "greedy_step T r st = Inr (st', r')"
  shows "\<exists>P e. shuffle r (PossE st) = (P, r') \<and> e \<in> set P \<and> PossE st' = remove1 e P
           \<and> max_edge st' = Some e"
  using assms unfolding greedy_step_def
  by (auto simp: Let_def split: prod.splits sum.splits option.splits if_splits)

lemma greedy_step_shrinks:
  assumes "greedy_step T r st = Inr (st', r')"
  shows "length (PossE st') < length (PossE st)"
proof -
  from greedy_step_PossE [OF assms] obtain P e where
    sh: "shuffle r (PossE st) = (P, r')" and e: "e \<in> set P" and P': "PossE st' = remove1 e P"
    by blast
  have "length (remove1 e P) < length P" using e by (simp add: length_remove1) (cases P; simp)
  then show ?thesis using shuffle_length [OF sh] P' by simp
qed

text \<open>The \<^verbatim>\<open>while (objfn < 0)\<close> loop.\<close>

function greedy_loop :: "concept list list \<Rightarrow> rng \<Rightarrow> state \<Rightarrow> error + (state \<times> rng)" where
  "greedy_loop T r st =
     (if objfn st < 0
      then (case greedy_step T r st of
              Inl err \<Rightarrow> Inl err
            | Inr (st', r') \<Rightarrow> greedy_loop T r' st')
      else Inr (st, r))"
  by pat_completeness auto
termination
  by (relation "measure (\<lambda>(T, r, st). length (PossE st))")
     (auto dest: greedy_step_shrinks)

subsection \<open>Counting the edges of a round\<close>

text \<open>
  \<^verbatim>\<open>G.edges()\<close> walks the nodes in insertion order and, for each node, its neighbours
  in the order in which the edges were added; an edge is reported from the first of its
  end points that is reached, so each undirected edge is reported once.
\<close>

definition neighbors :: "graph \<Rightarrow> concept \<Rightarrow> concept list" where
  "neighbors g n =
     concat (map (\<lambda>e. if fst e = n then [snd e] else if snd e = n then [fst e] else [])
       (gedges g))"

fun edges_from :: "graph \<Rightarrow> concept list \<Rightarrow> concept list \<Rightarrow> edge list" where
  "edges_from g seen [] = []"
| "edges_from g seen (n # ns) =
     map (Pair n) (filter (\<lambda>m. m \<notin> set seen) (neighbors g n)) @ edges_from g (n # seen) ns"

definition edges_view :: "graph \<Rightarrow> edge list" where
  "edges_view g = edges_from g [] (gnodes g)"

text \<open>\<^verbatim>\<open>edges_dictionary\<close>: a dictionary in insertion order, from the pairs of
  \<^verbatim>\<open>allpairs(nodes)\<close> to counts.\<close>

type_synonym table = "(edge \<times> int) list"

definition edges_dictionary :: table where
  "edges_dictionary = map (\<lambda>key. (key, 0)) (allpairs nodes)"

text \<open>\<^verbatim>\<open>d[key] += 1\<close> raises \<^verbatim>\<open>KeyError\<close> on a key that is not in the dictionary.\<close>

definition increment :: "edge \<Rightarrow> table \<Rightarrow> error + table" where
  "increment key d =
     (case map_of d key of
        None \<Rightarrow> Inl KeyError
      | Some n \<Rightarrow> Inr (AList.update key (n + 1) d))"

definition count_edge :: "edge \<Rightarrow> table \<Rightarrow> error + table" where
  "count_edge e d =
     (if map_of d e \<noteq> None then increment e d else increment (snd e, fst e) d)"

fun count_edges :: "edge list \<Rightarrow> table \<Rightarrow> error + table" where
  "count_edges [] d = Inr d"
| "count_edges (e # es) d =
     (case count_edge e d of Inl err \<Rightarrow> Inl err | Inr d' \<Rightarrow> count_edges es d')"

subsection \<open>The bootstrap loop\<close>

text \<open>
  The file system maps a path to the lines of the file. One round of the bootstrap loop
  draws the languages, reads the file named by \<^verbatim>\<open>sys.argv[1]\<close>, builds the graph, runs
  the greedy loop and counts the edges. The random generator, the dictionary and
  \<^verbatim>\<open>max_edge\<close> live on from round to round.
\<close>

record globals =
  gen :: rng
  dict :: table
  last_edge :: "edge option"

definition bootstrap_round ::
  "string list \<Rightarrow> (string \<rightharpoonup> string list) \<Rightarrow> globals \<Rightarrow> error + globals" where
  "bootstrap_round argv fs gl =
     (case choices (gen gl) languages 12 of
        Inl err \<Rightarrow> Inl err
      | Inr (L, r1) \<Rightarrow>
         (if length argv < 2 then Inl IndexError
          else (case fs (argv ! 1) of
             None \<Rightarrow> Inl FileNotFoundError
           | Some lines \<Rightarrow>
              (case read_data L lines of
                 Inl err \<Rightarrow> Inl err
               | Inr T \<Rightarrow>
                  (case initial_graph T of (g, P) \<Rightarrow>
                    (case greedy_loop T r1
                            \<lparr>G = g, PossE = P, max_edge = last_edge gl, objfn = C g g T\<rparr> of
                       Inl err \<Rightarrow> Inl err
                     | Inr (st, r2) \<Rightarrow>
                        (case count_edges (edges_view (G st)) (dict gl) of
                           Inl err \<Rightarrow> Inl err
                         | Inr d \<Rightarrow> Inr \<lparr>gen = r2, dict = d, last_edge = max_edge st\<rparr>)))))))"

fun bootstrap ::
  "nat \<Rightarrow> string list \<Rightarrow> (string \<rightharpoonup> string list) \<Rightarrow> globals \<Rightarrow> error + globals" where
  "bootstrap 0 argv fs gl = Inr gl"
| "bootstrap (Suc n) argv fs gl =
     (case bootstrap_round argv fs gl of
        Inl err \<Rightarrow> Inl err
      | Inr gl' \<Rightarrow> bootstrap n argv fs gl')"

subsection \<open>The final graph\<close>

text \<open>
  \<^verbatim>\<open>a / b\<close> on two integers is true division: the result is a float, the double nearest
  to the quotient (ties to the even mantissa), \<^verbatim>\<open>ZeroDivisionError\<close> for \<open>b = 0\<close> and
  \<^verbatim>\<open>OverflowError\<close> when the result is too large for a double. A float is modelled by
  the rational number it stands for: \<open>m * 2 ^ e\<close> with at most 53 bits in \<open>m\<close> and
  \<open>e \<ge> -1074\<close>.
\<close>

definition round_half_even :: "rat \<Rightarrow> int" where
  "round_half_even x =
     (let f = \<lfloor>x\<rfloor>; r = x - of_int f
      in if r < 1 / 2 then f else if 1 / 2 < r then f + 1 else if even f then f else f + 1)"

definition true_div :: "int \<Rightarrow> int \<Rightarrow> error + rat" where
  "true_div a b =
     (if b = 0 then Inl ZeroDivisionError
      else if a = 0 then Inr 0
      else
        (let q = (of_int \<bar>a\<bar> / of_int \<bar>b\<bar> :: rat);
             d = bitlen \<bar>a\<bar> - bitlen \<bar>b\<bar>;
             k = (if 2 powi d \<le> q then d else d - 1);
             e = max (k - 52) (- 1074);
             w = of_int (round_half_even (q / 2 powi e)) * 2 powi e
         in if 2 powi 1024 \<le> w then Inl OverflowError
            else Inr (if (a < 0) = (b < 0) then w else - w)))"

text \<open>The final graph carries a \<^verbatim>\<open>weight\<close>, a float, on every edge.\<close>

record weighted_graph =
  wnodes :: "concept list"
  wedges :: "(edge \<times> rat) list"

definition add_nodes_from :: "weighted_graph \<Rightarrow> concept list \<Rightarrow> weighted_graph" where
  "add_nodes_from g ns =
     fold (\<lambda>n g. if n \<in> set (wnodes g) then g else g\<lparr>wnodes := wnodes g @ [n]\<rparr>) ns g"

definition add_weighted_edge :: "weighted_graph \<Rightarrow> concept \<Rightarrow> concept \<Rightarrow> rat \<Rightarrow> weighted_graph" where
  "add_weighted_edge g u v w =
     (let g1 = add_nodes_from g [u, v]
      in if map_of (wedges g1) (u, v) \<noteq> None
         then g1\<lparr>wedges := AList.update (u, v) w (wedges g1)\<rparr>
         else if map_of (wedges g1) (v, u) \<noteq> None
         then g1\<lparr>wedges := AList.update (v, u) w (wedges g1)\<rparr>
         else g1\<lparr>wedges := wedges g1 @ [((u, v), w)]\<rparr>)"

text \<open>The loop \<^verbatim>\<open>for key in edges_dictionary\<close> over the keys that are still to come.\<close>

fun final_loop ::
  "table \<Rightarrow> edge list \<Rightarrow> weighted_graph \<times> edge list
     \<Rightarrow> error + (weighted_graph \<times> edge list)" where
  "final_loop d [] s = Inr s"
| "final_loop d (key # keys) (g, important_links) =
     (case map_of d key of
        None \<Rightarrow> Inl KeyError
      | Some n \<Rightarrow>
         (if n < 250 then final_loop d keys (g, important_links)
          else (case true_div n 200 of
                  Inl err \<Rightarrow> Inl err
                | Inr w \<Rightarrow>
                   final_loop d keys
                     (add_weighted_edge g (fst key) (snd key) w,
                      if n > 500 then important_links @ [key] else important_links))))"

definition final_graph :: "table \<Rightarrow> error + (weighted_graph \<times> edge list)" where
  "final_graph d =
     final_loop d (map fst d) (add_nodes_from \<lparr>wnodes = [], wedges = []\<rparr> nodes, [])"

subsection \<open>The script\<close>

text \<open>
  What a run leaves behind: whether the usage line was printed, and either the exception
  that ended the run or the final graph with the list of important links. An uncaught
  exception ends the interpreter with status 1.
\<close>

record run_result =
  usage_printed :: bool
  outcome :: "error + (weighted_graph \<times> edge list)"

definition main :: "string list \<Rightarrow> (string \<rightharpoonup> string list) \<Rightarrow> rng \<Rightarrow> run_result" where
  "main argv fs r =
     \<lparr>usage_printed = (length argv \<noteq> 2),
      outcome =
        (case bootstrap 1000 argv fs \<lparr>gen = r, dict = edges_dictionary, last_edge = None\<rparr> of
           Inl err \<Rightarrow> Inl err
         | Inr gl \<Rightarrow> final_graph (dict gl))\<rparr>"

definition exit_status :: "run_result \<Rightarrow> nat" where
  "exit_status res = (case outcome res of Inl err \<Rightarrow> 1 | Inr x \<Rightarrow> 0)"

declare greedy_loop.simps [simp del]

section \<open>Predicates used in the statements\<close>

text \<open>Two nodes lie in one component when one block of the partition holds both.\<close>

definition same_block :: "concept list list \<Rightarrow> concept \<Rightarrow> concept \<Rightarrow> bool" where
  "same_block P u v = (\<exists>b \<in> set P. u \<in> set b \<and> v \<in> set b)"

abbreviation joins :: "edge list \<Rightarrow> concept list list \<Rightarrow> concept list list" where
  "joins es P \<equiv> fold (\<lambda>e P. join (fst e) (snd e) P) es P"

text \<open>
  A graph as the library keeps it: no node twice, no edge twice in either orientation,
  every end point a node.
\<close>

definition wf_graph :: "graph \<Rightarrow> bool" where
  "wf_graph g \<longleftrightarrow> distinct (gnodes g) \<and> distinct (gedges g) \<and>
     (\<forall>e \<in> set (gedges g). fst e \<in> set (gnodes g) \<and> snd e \<in> set (gnodes g) \<and>
        (fst e \<noteq> snd e \<longrightarrow> (snd e, fst e) \<notin> set (gedges g)))"

text \<open>The candidate list holds no pair twice in either orientation, joins nodes of the
  graph only, and holds no edge of the graph.\<close>

definition candidates_ok :: "graph \<Rightarrow> edge list \<Rightarrow> bool" where
  "candidates_ok g P \<longleftrightarrow> distinct P \<and>
     (\<forall>e \<in> set P. fst e \<in> set (gnodes g) \<and> snd e \<in> set (gnodes g) \<and>
        \<not> has_edge g (fst e) (snd e) \<and> (fst e \<noteq> snd e \<longrightarrow> (snd e, fst e) \<notin> set P))"

text \<open>Every pair of different concepts of one observation is a candidate or an edge.\<close>

definition covered :: "concept list list \<Rightarrow> graph \<Rightarrow> edge list \<Rightarrow> bool" where
  "covered T g P \<longleftrightarrow>
     (\<forall>t \<in> set T. \<forall>u \<in> set t. \<forall>v \<in> set t.
        u \<noteq> v \<longrightarrow> (u, v) \<in> set P \<or> (v, u) \<in> set P \<or> has_edge g u v)"

text \<open>The invariant of the greedy loop.\<close>

definition loop_inv :: "concept list list \<Rightarrow> state \<Rightarrow> bool" where
  "loop_inv T st \<longleftrightarrow> wf_graph (G st) \<and> (\<forall>t \<in> set T. set t \<subseteq> set (gnodes (G st))) \<and>
     candidates_ok (G st) (PossE st) \<and> covered T (G st) (PossE st) \<and>
     objfn st = C (G st) (G st) T"

text \<open>The marginal gain of a candidate in a state: the \<^verbatim>\<open>score\<close> the loop computes for it.\<close>

definition gain :: "concept list list \<Rightarrow> state \<Rightarrow> edge \<Rightarrow> int" where
  "gain T st e = C (add_edge (G st) e) (add_edge (G st) e) T - objfn st"

text \<open>The selection the \<^verbatim>\<open>for\<close> loop makes once the graph is known to come back unchanged:
  a later candidate replaces the current one only with a strictly larger score.\<close>

fun best :: "(edge \<Rightarrow> int) \<Rightarrow> edge list \<Rightarrow> int \<times> edge option \<Rightarrow> int \<times> edge option" where
  "best f [] acc = acc"
| "best f (e # es) (ms, me) = best f es (if f e > ms then (f e, Some e) else (ms, me))"

definition no_reverse :: "edge list \<Rightarrow> bool" where
  "no_reverse P \<longleftrightarrow> (\<forall>e \<in> set P. fst e \<noteq> snd e \<longrightarrow> (snd e, fst e) \<notin> set P)"

text \<open>What holds of the graph and the candidate list once the observations \<open>T\<close> have been
  added.\<close>

definition built :: "concept list list \<Rightarrow> graph \<times> edge list \<Rightarrow> bool" where
  "built T s \<longleftrightarrow> (case s of (g, P) \<Rightarrow>
     gedges g = [] \<and> distinct (gnodes g) \<and> (\<forall>t \<in> set T. set t \<subseteq> set (gnodes g)) \<and>
     distinct P \<and> no_reverse P \<and>
     (\<forall>e \<in> set P. fst e \<in> set (gnodes g) \<and> snd e \<in> set (gnodes g)) \<and>
     (\<forall>t \<in> set T. \<forall>u \<in> set t. \<forall>v \<in> set t. u \<noteq> v \<longrightarrow> (u, v) \<in> set P \<or> (v, u) \<in> set P))"

text \<open>
  The state in which a bootstrap round enters the \<^verbatim>\<open>while\<close> loop (\<open>me\<close> is whatever
  \<^verbatim>\<open>max_edge\<close> holds from earlier rounds), the states the loop passes through from a
  given state, and the states a round can be in at the head of the loop.
\<close>

definition loop_entry :: "concept list list \<Rightarrow> edge option \<Rightarrow> state" where
  "loop_entry T me = (case initial_graph T of (g, P) \<Rightarrow>
     \<lparr>G = g, PossE = P, max_edge = me, objfn = C g g T\<rparr>)"

inductive steps :: "concept list list \<Rightarrow> state \<Rightarrow> state \<Rightarrow> bool" for T where
  steps_refl: "steps T st st"
| steps_step: "steps T st st1 \<Longrightarrow> objfn st1 < 0 \<Longrightarrow> greedy_step T r st1 = Inr (st2, r')
     \<Longrightarrow> steps T st st2"

definition reachable :: "concept list list \<Rightarrow> state \<Rightarrow> bool" where
  "reachable T st \<longleftrightarrow> (\<exists>me. steps T (loop_entry T me) st)"

text \<open>The dictionary entry an edge is counted under: the edge as reported when that is a
  key, the reversed pair otherwise.\<close>

definition key_of :: "table \<Rightarrow> edge \<Rightarrow> edge" where
  "key_of d e = (if map_of d e \<noteq> None then e else (snd e, fst e))"

text \<open>The tests and the weight of the final loop, read off the dictionary.\<close>

definition kept :: "table \<Rightarrow> edge \<Rightarrow> bool" where
  "kept d k = (case map_of d k of None \<Rightarrow> False | Some n \<Rightarrow> 250 \<le> n)"

definition important :: "table \<Rightarrow> edge \<Rightarrow> bool" where
  "important d k = (case map_of d k of None \<Rightarrow> False | Some n \<Rightarrow> 500 < n)"

definition weight_of :: "table \<Rightarrow> edge \<Rightarrow> rat" where
  "weight_of d k =
     (case map_of d k of
        None \<Rightarrow> 0
      | Some n \<Rightarrow> (case true_div n 200 of Inl err \<Rightarrow> 0 | Inr w \<Rightarrow> w))"

text \<open>
  Connectedness as graph theory has it, to compare the block merging with: two nodes are
  linked when an edge joins them in either orientation, and connected when a chain of
  links leads from one to the other.
\<close>

definition linked :: "concept list \<Rightarrow> edge list \<Rightarrow> (concept \<times> concept) set" where
  "linked ns es = {(a, b). a \<in> set ns \<and> b \<in> set ns \<and> ((a, b) \<in> set es \<or> (b, a) \<in> set es)}"

definition linked_by_path :: "concept list \<Rightarrow> edge list \<Rightarrow> concept \<Rightarrow> concept \<Rightarrow> bool" where
  "linked_by_path ns es u v \<longleftrightarrow> u \<in> set ns \<and> v \<in> set ns \<and> (u, v) \<in> (linked ns es)\<^sup>*"

section \<open>Lemmas\<close>

subsection \<open>The sum computed by C\<close>

lemma fold_add_sum_list:
  "fold (\<lambda>c total. total + f c) s (a::int) = a + sum_list (map f s)"
  by (induction s arbitrary: a) simp_all

lemma C_sum_list:
  "C gr g s = (\<Sum>c\<leftarrow>s. 1 - int (number_connected_components (subgraph gr c)))"
  unfolding C_def Let_def by (simp add: fold_add_sum_list)

lemma join_not_Nil: "P \<noteq> [] \<Longrightarrow> join u v P \<noteq> []"
  by (simp add: join_def)

lemma join_length_le: "length (join u v P) \<le> length P"
proof (cases "(\<exists>b \<in> set P. u \<in> set b) \<and> (\<exists>b \<in> set P. v \<in> set b)")
  case True
  let ?p = "\<lambda>b. u \<in> set b \<or> v \<in> set b"
  from True have "filter ?p P \<noteq> []"
    by (auto simp: filter_empty_conv)
  then have "1 \<le> length (filter ?p P)"
    by (cases "filter ?p P") simp_all
  moreover have "length (filter ?p P) + length (filter (\<lambda>b. \<not> ?p b) P) = length P"
    by (rule sum_length_filter_compl)
  moreover have "length (join u v P) = Suc (length (filter (\<lambda>b. \<not> ?p b) P))"
    using True by (simp add: join_def)
  ultimately show ?thesis by linarith
next
  case False
  then have "join u v P = P" unfolding join_def by (rule if_not_P)
  then show ?thesis by simp
qed

lemma fold_join_not_Nil:
  "P \<noteq> [] \<Longrightarrow> fold (\<lambda>e P. join (fst e) (snd e) P) es P \<noteq> []"
  by (induction es arbitrary: P) (simp_all add: join_not_Nil)

lemma ncc_ge_1: "gnodes g \<noteq> [] \<Longrightarrow> 1 \<le> number_connected_components g"
proof -
  assume "gnodes g \<noteq> []"
  then have "connected_components g \<noteq> []"
    unfolding connected_components_def by (intro fold_join_not_Nil) simp
  then show ?thesis
    unfolding number_connected_components_def by (cases "connected_components g") simp_all
qed

lemma subgraph_nodes_not_Nil:
  "\<exists>n \<in> set c. has_node gr n \<Longrightarrow> gnodes (subgraph gr c) \<noteq> []"
  by (auto simp: subgraph_def has_node_def filter_empty_conv)

lemma sum_list_nonpos:
  "(\<And>x. x \<in> set xs \<Longrightarrow> f x \<le> (0::int)) \<Longrightarrow> sum_list (map f xs) \<le> 0"
  by (induction xs) (simp_all add: add_nonpos_nonpos)

lemma sum_list_nonpos_eq_0_iff:
  "(\<And>x. x \<in> set xs \<Longrightarrow> f x \<le> (0::int)) \<Longrightarrow>
   sum_list (map f xs) = 0 \<longleftrightarrow> (\<forall>x \<in> set xs. f x = 0)"
proof (induction xs)
  case Nil
  then show ?case by simp
next
  case (Cons a xs)
  have a: "f a \<le> 0" using Cons.prems by simp
  have s: "sum_list (map f xs) \<le> 0" using Cons.prems by (intro sum_list_nonpos) simp
  have ih: "sum_list (map f xs) = 0 \<longleftrightarrow> (\<forall>x \<in> set xs. f x = 0)"
    using Cons.IH Cons.prems by simp
  show ?case using a s ih by auto
qed

subsection \<open>Merging blocks\<close>

lemma mset_concat_filter:
  "mset (concat (filter p P)) + mset (concat (filter (\<lambda>b. \<not> p b) P)) = mset (concat P)"
  by (induction P) simp_all

lemma join_mset: "mset (concat (join u v P)) = mset (concat P)"
  using mset_concat_filter [of "\<lambda>b. u \<in> set b \<or> v \<in> set b" P]
  unfolding join_def by (cases "(\<exists>b \<in> set P. u \<in> set b) \<and> (\<exists>b \<in> set P. v \<in> set b)") simp_all

lemma joins_mset: "mset (concat (joins es P)) = mset (concat P)"
  by (induction es arbitrary: P) (simp_all add: join_mset)

lemma join_set: "set (concat (join u v P)) = set (concat P)"
  using join_mset [of u v P] by (rule mset_eq_setD)

lemma joins_set: "set (concat (joins es P)) = set (concat P)"
  using joins_mset [of es P] by (rule mset_eq_setD)

lemma in_concat_block: "x \<in> set (concat P) \<longleftrightarrow> (\<exists>b \<in> set P. x \<in> set b)"
  by auto

lemma join_no_empty_block:
  assumes "[] \<notin> set P"
  shows "[] \<notin> set (join u v P)"
proof (cases "(\<exists>b \<in> set P. u \<in> set b) \<and> (\<exists>b \<in> set P. v \<in> set b)")
  case True
  let ?p = "\<lambda>b. u \<in> set b \<or> v \<in> set b"
  from True have "u \<in> set (concat (filter ?p P))" by auto
  then have "concat (filter ?p P) \<noteq> []" by auto
  moreover have "[] \<notin> set (filter (\<lambda>b. \<not> ?p b) P)" using assms by simp
  moreover have "join u v P = concat (filter ?p P) # filter (\<lambda>b. \<not> ?p b) P"
    using True unfolding join_def by (rule if_P)
  ultimately show ?thesis by auto
next
  case False
  then have "join u v P = P" unfolding join_def by (rule if_not_P)
  with assms show ?thesis by simp
qed

lemma joins_no_empty_block: "[] \<notin> set P \<Longrightarrow> [] \<notin> set (joins es P)"
  by (induction es arbitrary: P) (simp_all add: join_no_empty_block)

lemma join_same_block_mono:
  assumes "same_block P a b"
  shows "same_block (join u v P) a b"
proof (cases "(\<exists>b \<in> set P. u \<in> set b) \<and> (\<exists>b \<in> set P. v \<in> set b)")
  case True
  let ?p = "\<lambda>b. u \<in> set b \<or> v \<in> set b"
  have j: "join u v P = concat (filter ?p P) # filter (\<lambda>b. \<not> ?p b) P"
    using True unfolding join_def by (rule if_P)
  from assms obtain b0 where b0: "b0 \<in> set P" "a \<in> set b0" "b \<in> set b0"
    unfolding same_block_def by blast
  show ?thesis
  proof (cases "?p b0")
    case True
    with b0 have "a \<in> set (concat (filter ?p P))" "b \<in> set (concat (filter ?p P))"
      by auto
    then show ?thesis unfolding same_block_def j by simp
  next
    case False
    with b0 have "b0 \<in> set (filter (\<lambda>b. \<not> ?p b) P)" by simp
    with b0 show ?thesis unfolding same_block_def j by auto
  qed
next
  case False
  then have "join u v P = P" unfolding join_def by (rule if_not_P)
  with assms show ?thesis by simp
qed

lemma joins_same_block_mono: "same_block P a b \<Longrightarrow> same_block (joins es P) a b"
  by (induction es arbitrary: P) (simp_all add: join_same_block_mono)

lemma join_same_block:
  assumes "u \<in> set (concat P)" "v \<in> set (concat P)"
  shows "same_block (join u v P) u v"
proof -
  let ?p = "\<lambda>b. u \<in> set b \<or> v \<in> set b"
  from assms have c: "(\<exists>b \<in> set P. u \<in> set b) \<and> (\<exists>b \<in> set P. v \<in> set b)" by auto
  then have j: "join u v P = concat (filter ?p P) # filter (\<lambda>b. \<not> ?p b) P"
    unfolding join_def by (rule if_P)
  from c have "u \<in> set (concat (filter ?p P))" "v \<in> set (concat (filter ?p P))" by auto
  then show ?thesis unfolding same_block_def j by simp
qed

lemma same_block_sym: "same_block P u v \<Longrightarrow> same_block P v u"
  by (auto simp: same_block_def)

lemma joins_edge_same_block:
  assumes "(a, b) \<in> set es" "a \<in> set (concat P)" "b \<in> set (concat P)"
  shows "same_block (joins es P) a b"
  using assms
proof (induction es arbitrary: P)
  case Nil
  then show ?case by simp
next
  case (Cons e es)
  show ?case
  proof (cases "e = (a, b)")
    case True
    have "same_block (join a b P) a b" using Cons.prems by (intro join_same_block)
    then have "same_block (joins es (join a b P)) a b" by (rule joins_same_block_mono)
    with True show ?thesis by simp
  next
    case False
    with Cons.prems have "(a, b) \<in> set es" by simp
    moreover have "a \<in> set (concat (join (fst e) (snd e) P))"
      "b \<in> set (concat (join (fst e) (snd e) P))"
      using Cons.prems by (simp_all only: join_set)
    ultimately have "same_block (joins es (join (fst e) (snd e) P)) a b" by (rule Cons.IH)
    then show ?thesis by simp
  qed
qed

lemma length_filter_ge_2:
  assumes "x \<in> set P" "y \<in> set P" "x \<noteq> y" "p x" "p y"
  shows "2 \<le> length (filter p P)"
proof -
  have "{x, y} \<subseteq> set (filter p P)" using assms by simp
  then have "card {x, y} \<le> card (set (filter p P))" by (intro card_mono) simp_all
  also have "\<dots> \<le> length (filter p P)" by (rule card_length)
  finally show ?thesis using assms(3) by simp
qed

lemma join_length_less:
  assumes "u \<in> set (concat P)" "v \<in> set (concat P)" "\<not> same_block P u v"
  shows "length (join u v P) < length P"
proof -
  let ?p = "\<lambda>b. u \<in> set b \<or> v \<in> set b"
  from assms(1,2) obtain bu bv where b: "bu \<in> set P" "u \<in> set bu" "bv \<in> set P" "v \<in> set bv"
    by auto
  with assms(3) have "bu \<noteq> bv" unfolding same_block_def by blast
  with b have "2 \<le> length (filter ?p P)" by (intro length_filter_ge_2 [of bu P bv]) simp_all
  moreover have "length (filter ?p P) + length (filter (\<lambda>b. \<not> ?p b) P) = length P"
    by (rule sum_length_filter_compl)
  moreover have "join u v P = concat (filter ?p P) # filter (\<lambda>b. \<not> ?p b) P"
    using b unfolding join_def by (intro if_P) blast
  ultimately show ?thesis by simp
qed

lemma distinct_concat_block_unique:
  assumes "distinct (concat P)" "b \<in> set P" "b' \<in> set P" "x \<in> set b" "x \<in> set b'"
  shows "b = b'"
  using assms by (induction P) auto

lemma two_blocks_apart:
  assumes "distinct (concat P)" "[] \<notin> set P" "2 \<le> length P"
  shows "\<exists>u v. u \<in> set (concat P) \<and> v \<in> set (concat P) \<and> u \<noteq> v \<and> \<not> same_block P u v"
proof -
  from assms(3) obtain b1 b2 rest where P: "P = b1 # b2 # rest"
    by (cases P; cases "tl P") auto
  with assms(2) obtain u v where uv: "u \<in> set b1" "v \<in> set b2"
    by (cases b1; cases b2) auto
  have ne: "u \<noteq> v" using assms(1) uv P by auto
  have "\<not> same_block P u v"
  proof
    assume "same_block P u v"
    then obtain b where b: "b \<in> set P" "u \<in> set b" "v \<in> set b"
      unfolding same_block_def by blast
    have "b = b1" using assms(1) b(1) _ b(2) uv(1) by (rule distinct_concat_block_unique) (simp add: P)
    moreover have "b = b2" using assms(1) b(1) _ b(3) uv(2) by (rule distinct_concat_block_unique) (simp add: P)
    ultimately have "u \<in> set b2" using uv by simp
    then show False using assms(1) uv P by auto
  qed
  with uv ne show ?thesis unfolding P by auto
qed

lemma joins_length_le: "length (joins es P) \<le> length P"
proof (induction es arbitrary: P)
  case Nil
  then show ?case by simp
next
  case (Cons e es)
  have "length (joins es (join (fst e) (snd e) P)) \<le> length (join (fst e) (snd e) P)"
    by (rule Cons.IH)
  also have "\<dots> \<le> length P" by (rule join_length_le)
  finally show ?case by simp
qed

lemma ncc_le_nodes: "number_connected_components g \<le> length (gnodes g)"
  unfolding number_connected_components_def connected_components_def
  using joins_length_le [of "gedges g" "map (\<lambda>n. [n]) (gnodes g)"] by simp

subsection \<open>Components of induced subgraphs\<close>

lemma add_edge_fresh:
  assumes "u \<in> set (gnodes g)" "v \<in> set (gnodes g)" "\<not> has_edge g u v"
  shows "add_edge g (u, v) = g\<lparr>gedges := gedges g @ [(u, v)]\<rparr>"
  using assms by (simp add: add_edge_def add_node_def has_node_def has_edge_def)

lemma remove_added_edge:
  assumes "u \<in> set (gnodes g)" "v \<in> set (gnodes g)" "\<not> has_edge g u v"
  shows "remove_edge (add_edge g (u, v)) (u, v) = Inr g"
proof -
  have "filter (\<lambda>x. x \<noteq> (u, v) \<and> x \<noteq> (v, u)) (gedges g) = gedges g"
    using assms(3) by (auto simp: has_edge_def filter_id_conv)
  then show ?thesis
    by (simp add: add_edge_fresh [OF assms] remove_edge_def has_edge_def)
qed

lemma cc_subgraph_add:
  "connected_components (subgraph (g\<lparr>gedges := gedges g @ [(u, v)]\<rparr>) c) =
     (if u \<in> set c \<and> v \<in> set c then join u v (connected_components (subgraph g c))
      else connected_components (subgraph g c))"
  by (simp add: connected_components_def subgraph_def)

lemma ncc_add_le:
  "number_connected_components (subgraph (g\<lparr>gedges := gedges g @ [(u, v)]\<rparr>) c)
     \<le> number_connected_components (subgraph g c)"
  by (simp add: number_connected_components_def cc_subgraph_add join_length_le)

lemma concat_singletons: "concat (map (\<lambda>n. [n]) xs) = xs"
  by (induction xs) simp_all

lemma cc_mset: "mset (concat (connected_components g)) = mset (gnodes g)"
  by (simp add: connected_components_def joins_mset concat_singletons)

lemma cc_set: "set (concat (connected_components g)) = set (gnodes g)"
  using cc_mset [of g] by (rule mset_eq_setD)

lemma cc_distinct: "distinct (gnodes g) \<Longrightarrow> distinct (concat (connected_components g))"
proof -
  have "distinct (concat (connected_components g)) \<longleftrightarrow> distinct (gnodes g)"
    using cc_mset [of g] by (rule mset_eq_imp_distinct_iff)
  then show "distinct (gnodes g) \<Longrightarrow> distinct (concat (connected_components g))" by simp
qed

lemma cc_no_empty_block: "[] \<notin> set (connected_components g)"
  unfolding connected_components_def by (rule joins_no_empty_block) auto

lemma subgraph_nodes: "set (gnodes (subgraph g c)) = set (gnodes g) \<inter> set c"
  by (auto simp: subgraph_def)

lemma ncc_add_less:
  assumes "u \<in> set c" "v \<in> set c" "u \<in> set (gnodes g)" "v \<in> set (gnodes g)"
    and "\<not> same_block (connected_components (subgraph g c)) u v"
  shows "number_connected_components (subgraph (g\<lparr>gedges := gedges g @ [(u, v)]\<rparr>) c)
     < number_connected_components (subgraph g c)"
proof -
  have "u \<in> set (concat (connected_components (subgraph g c)))"
    "v \<in> set (concat (connected_components (subgraph g c)))"
    using assms(1-4) by (simp_all only: cc_set subgraph_nodes Int_iff)
  then have "length (join u v (connected_components (subgraph g c)))
      < length (connected_components (subgraph g c))"
    using assms(5) by (rule join_length_less)
  then show ?thesis
    using assms(1,2) by (simp add: number_connected_components_def cc_subgraph_add)
qed

lemma disconnected_pair:
  assumes "distinct (gnodes g)" "2 \<le> number_connected_components (subgraph g c)"
  shows "\<exists>u v. u \<in> set c \<and> v \<in> set c \<and> u \<in> set (gnodes g) \<and> v \<in> set (gnodes g) \<and> u \<noteq> v
           \<and> \<not> same_block (connected_components (subgraph g c)) u v"
proof -
  let ?P = "connected_components (subgraph g c)"
  have "distinct (gnodes (subgraph g c))" using assms(1) by (simp add: subgraph_def)
  then have "distinct (concat ?P)" by (rule cc_distinct)
  moreover have "[] \<notin> set ?P" by (rule cc_no_empty_block)
  moreover have "2 \<le> length ?P" using assms(2) by (simp add: number_connected_components_def)
  ultimately obtain u v where "u \<in> set (concat ?P)" "v \<in> set (concat ?P)" "u \<noteq> v"
    "\<not> same_block ?P u v"
    using two_blocks_apart by blast
  then show ?thesis by (auto simp only: cc_set subgraph_nodes)
qed

lemma has_edge_same_block:
  assumes "has_edge g u v" "u \<in> set c" "v \<in> set c" "u \<in> set (gnodes g)" "v \<in> set (gnodes g)"
  shows "same_block (connected_components (subgraph g c)) u v"
proof -
  let ?s = "subgraph g c"
  have n: "u \<in> set (concat (map (\<lambda>n. [n]) (gnodes ?s)))" "v \<in> set (concat (map (\<lambda>n. [n]) (gnodes ?s)))"
    using assms(2-5) by (simp_all only: concat_singletons subgraph_nodes Int_iff)
  from assms(1) consider "(u, v) \<in> set (gedges g)" | "(v, u) \<in> set (gedges g)"
    unfolding has_edge_def by blast
  then show ?thesis
  proof cases
    case 1
    then have "(u, v) \<in> set (gedges ?s)" using assms(2,3) by (simp add: subgraph_def)
    then show ?thesis unfolding connected_components_def using n by (rule joins_edge_same_block)
  next
    case 2
    then have "(v, u) \<in> set (gedges ?s)" using assms(2,3) by (simp add: subgraph_def)
    then have "same_block (connected_components ?s) v u"
      unfolding connected_components_def using n(2,1) by (rule joins_edge_same_block)
    then show ?thesis by (rule same_block_sym)
  qed
qed

lemma sum_list_neg_term:
  "sum_list (map f xs) < (0::int) \<Longrightarrow> \<exists>x \<in> set xs. f x < 0"
proof (induction xs)
  case Nil
  then show ?case by simp
next
  case (Cons a xs)
  show ?case
  proof (cases "f a < 0")
    case True
    then show ?thesis by simp
  next
    case False
    with Cons.prems have "sum_list (map f xs) < 0" by simp
    with Cons.IH show ?thesis by auto
  qed
qed

lemma sum_list_strict_gain:
  assumes "\<And>x. x \<in> set xs \<Longrightarrow> f x \<le> (h x :: int)" "y \<in> set xs" "f y < h y"
  shows "sum_list (map f xs) < sum_list (map h xs)"
  using assms
proof (induction xs)
  case Nil
  then show ?case by simp
next
  case (Cons a xs)
  have le: "sum_list (map f xs) \<le> sum_list (map h xs)"
    using Cons.prems(1) by (intro sum_list_mono) simp
  have a: "f a \<le> h a" using Cons.prems(1) by simp
  show ?case
  proof (cases "f a < h a")
    case True
    with le show ?thesis by simp
  next
    case False
    with Cons.prems have "y \<in> set xs" by auto
    with Cons.IH Cons.prems have "sum_list (map f xs) < sum_list (map h xs)" by simp
    with a show ?thesis by simp
  qed
qed

lemma C_negative_disconnected:
  assumes "C g g' T < 0"
  shows "\<exists>c \<in> set T. 2 \<le> number_connected_components (subgraph g c)"
proof -
  from assms obtain c where "c \<in> set T"
    "1 - int (number_connected_components (subgraph g c)) < 0"
    unfolding C_sum_list using sum_list_neg_term by blast
  then show ?thesis by (intro bexI [of _ c]) simp_all
qed

lemma C_add_edge_mono:
  "C g g1 T \<le> C (g\<lparr>gedges := gedges g @ [(u, v)]\<rparr>) g2 T"
  unfolding C_sum_list by (intro sum_list_mono) (simp add: ncc_add_le)

lemma C_add_edge_gain:
  assumes "c \<in> set T" "u \<in> set c" "v \<in> set c" "u \<in> set (gnodes g)" "v \<in> set (gnodes g)"
    and "\<not> same_block (connected_components (subgraph g c)) u v"
  shows "C g g1 T < C (g\<lparr>gedges := gedges g @ [(u, v)]\<rparr>) g2 T"
  unfolding C_sum_list
proof (rule sum_list_strict_gain [where y = c])
  show "1 - int (number_connected_components (subgraph g x))
      \<le> 1 - int (number_connected_components (subgraph (g\<lparr>gedges := gedges g @ [(u, v)]\<rparr>) x))"
    for x by (simp add: ncc_add_le)
  show "c \<in> set T" by fact
  show "1 - int (number_connected_components (subgraph g c))
      < 1 - int (number_connected_components (subgraph (g\<lparr>gedges := gedges g @ [(u, v)]\<rparr>) c))"
    using ncc_add_less [OF assms(2-6)] by simp
qed

lemma ncc_single_concept:
  assumes "distinct (gnodes gr)" "set c = {n}" "has_node gr n"
  shows "number_connected_components (subgraph gr c) = 1"
proof -
  have "length (gnodes (subgraph gr c)) = card ({x. x \<in> set c} \<inter> set (gnodes gr))"
    unfolding subgraph_def using assms(1) by (simp add: distinct_length_filter)
  also have "{x. x \<in> set c} \<inter> set (gnodes gr) = {n}"
    using assms(2,3) by (auto simp: has_node_def)
  finally have l: "length (gnodes (subgraph gr c)) = 1" by simp
  then have "gnodes (subgraph gr c) \<noteq> []" by auto
  from ncc_ge_1 [OF this] ncc_le_nodes [of "subgraph gr c"] l show ?thesis by simp
qed

subsection \<open>The blocks are the connected components\<close>

lemma linked_sym: "(a, b) \<in> linked ns es \<Longrightarrow> (b, a) \<in> linked ns es"
  by (auto simp: linked_def)

lemma linked_rtrancl_sym: "(a, b) \<in> (linked ns es)\<^sup>* \<Longrightarrow> (b, a) \<in> (linked ns es)\<^sup>*"
proof (induction rule: rtrancl_induct)
  case base
  then show ?case by simp
next
  case (step y z)
  from step.hyps(2) have "(z, y) \<in> linked ns es" by (rule linked_sym)
  then show ?case using step.IH by (rule converse_rtrancl_into_rtrancl)
qed

lemma connected_refl: "u \<in> set ns \<Longrightarrow> linked_by_path ns es u u"
  by (simp add: linked_by_path_def)

lemma connected_sym: "linked_by_path ns es u v \<Longrightarrow> linked_by_path ns es v u"
  by (auto simp: linked_by_path_def intro: linked_rtrancl_sym)

lemma connected_trans: "linked_by_path ns es u v \<Longrightarrow> linked_by_path ns es v w \<Longrightarrow> linked_by_path ns es u w"
  by (auto simp: linked_by_path_def)

lemma linked_snoc_absent:
  "\<not> (a \<in> set ns \<and> b \<in> set ns) \<Longrightarrow> linked ns (es @ [(a, b)]) = linked ns es"
  by (auto simp: linked_def)

lemma linked_snoc_present:
  "a \<in> set ns \<Longrightarrow> b \<in> set ns \<Longrightarrow>
     linked ns (es @ [(a, b)]) = linked ns es \<union> {(a, b), (b, a)}"
  by (auto simp: linked_def)

lemma connected_snoc:
  assumes "a \<in> set ns" "b \<in> set ns"
  shows "linked_by_path ns (es @ [(a, b)]) u v \<longleftrightarrow>
     linked_by_path ns es u v \<or>
     ((linked_by_path ns es u a \<or> linked_by_path ns es u b) \<and> (linked_by_path ns es v a \<or> linked_by_path ns es v b))"
    (is "?L \<longleftrightarrow> ?R u v")
proof
  let ?r = "linked ns es"
  let ?r' = "linked ns (es @ [(a, b)])"
  have r': "?r' = ?r \<union> {(a, b), (b, a)}" using assms by (rule linked_snoc_present)
  assume L: ?L
  then have u: "u \<in> set ns" and path: "(u, v) \<in> ?r'\<^sup>*" by (simp_all add: linked_by_path_def)
  from path show "?R u v"
  proof (induction rule: rtrancl_induct)
    case base
    have "linked_by_path ns es u u" using u by (rule connected_refl)
    then show ?case by simp
  next
    case (step y z)
    from step.hyps(2) consider "(y, z) \<in> ?r" | "y = a \<and> z = b" | "y = b \<and> z = a"
      unfolding r' by auto
    then show ?case
    proof cases
      case 1
      then have "y \<in> set ns" "z \<in> set ns" by (simp_all add: linked_def)
      with 1 have yz: "linked_by_path ns es y z" unfolding linked_by_path_def by simp
      then have zy: "linked_by_path ns es z y" by (rule connected_sym)
      have f1: "linked_by_path ns es u z" if "linked_by_path ns es u y"
        using that yz by (rule connected_trans)
      have f2: "linked_by_path ns es z a" if "linked_by_path ns es y a"
        using zy that by (rule connected_trans)
      have f3: "linked_by_path ns es z b" if "linked_by_path ns es y b"
        using zy that by (rule connected_trans)
      from step.IH f1 f2 f3 show ?thesis by blast
    next
      case 2
      have "linked_by_path ns es b b" using assms(2) by (rule connected_refl)
      moreover from 2 have "y = a" "z = b" by simp_all
      ultimately show ?thesis using step.IH by blast
    next
      case 3
      have "linked_by_path ns es a a" using assms(1) by (rule connected_refl)
      moreover from 3 have "y = b" "z = a" by simp_all
      ultimately show ?thesis using step.IH by blast
    qed
  qed
next
  let ?r = "linked ns es"
  let ?r' = "linked ns (es @ [(a, b)])"
  have r': "?r' = ?r \<union> {(a, b), (b, a)}" using assms by (rule linked_snoc_present)
  have sub: "?r\<^sup>* \<subseteq> ?r'\<^sup>*" unfolding r' by (rule rtrancl_mono) blast
  have mono: "linked_by_path ns (es @ [(a, b)]) x y" if "linked_by_path ns es x y" for x y
    using that sub unfolding linked_by_path_def by (simp add: subsetD)
  have "(a, b) \<in> ?r'" unfolding r' by simp
  then have ab: "linked_by_path ns (es @ [(a, b)]) a b"
    unfolding linked_by_path_def using assms by simp
  then have ba: "linked_by_path ns (es @ [(a, b)]) b a" by (rule connected_sym)
  assume "?R u v"
  then consider "linked_by_path ns es u v" | "linked_by_path ns es u a" "linked_by_path ns es v a"
    | "linked_by_path ns es u a" "linked_by_path ns es v b" | "linked_by_path ns es u b" "linked_by_path ns es v a"
    | "linked_by_path ns es u b" "linked_by_path ns es v b" by blast
  then show ?L
  proof cases
    case 1
    then show ?thesis by (rule mono)
  next
    case 2
    from 2(1) connected_sym [OF 2(2)] have "linked_by_path ns es u v" by (rule connected_trans)
    then show ?thesis by (rule mono)
  next
    case 3
    have "linked_by_path ns (es @ [(a, b)]) u b" using mono [OF 3(1)] ab by (rule connected_trans)
    then show ?thesis using connected_sym [OF mono [OF 3(2)]] by (rule connected_trans)
  next
    case 4
    have "linked_by_path ns (es @ [(a, b)]) u a" using mono [OF 4(1)] ba by (rule connected_trans)
    then show ?thesis using connected_sym [OF mono [OF 4(2)]] by (rule connected_trans)
  next
    case 5
    from 5(1) connected_sym [OF 5(2)] have "linked_by_path ns es u v" by (rule connected_trans)
    then show ?thesis by (rule mono)
  qed
qed

lemma same_block_join:
  assumes "a \<in> set (concat P)" "b \<in> set (concat P)"
  shows "same_block (join a b P) u v \<longleftrightarrow>
     same_block P u v \<or>
     ((same_block P u a \<or> same_block P u b) \<and> (same_block P v a \<or> same_block P v b))"
proof -
  let ?p = "\<lambda>x. a \<in> set x \<or> b \<in> set x"
  from assms have c: "(\<exists>x \<in> set P. a \<in> set x) \<and> (\<exists>x \<in> set P. b \<in> set x)" by auto
  then have j: "join a b P = concat (filter ?p P) # filter (\<lambda>x. \<not> ?p x) P"
    unfolding join_def by (rule if_P)
  have hit: "w \<in> set (concat (filter ?p P)) \<longleftrightarrow> same_block P w a \<or> same_block P w b" for w
    by (auto simp: same_block_def)
  have "same_block (join a b P) u v \<longleftrightarrow>
      (u \<in> set (concat (filter ?p P)) \<and> v \<in> set (concat (filter ?p P)))
      \<or> (\<exists>x \<in> set P. \<not> ?p x \<and> u \<in> set x \<and> v \<in> set x)"
    unfolding j same_block_def by auto
  also have "\<dots> \<longleftrightarrow> same_block P u v \<or>
     ((same_block P u a \<or> same_block P u b) \<and> (same_block P v a \<or> same_block P v b))"
    unfolding hit by (auto simp: same_block_def)
  finally show ?thesis .
qed

lemma same_block_joins:
  "same_block (joins es (map (\<lambda>n. [n]) ns)) u v \<longleftrightarrow> linked_by_path ns es u v"
proof (induction es arbitrary: u v rule: rev_induct)
  case Nil
  show ?case by (auto simp: same_block_def linked_by_path_def linked_def)
next
  case (snoc e es)
  obtain a b where e: "e = (a, b)" by (cases e)
  let ?P = "joins es (map (\<lambda>n. [n]) ns)"
  have cover: "set (concat ?P) = set ns" by (simp only: joins_set concat_singletons)
  have step: "joins (es @ [e]) (map (\<lambda>n. [n]) ns) = join a b ?P" by (simp add: e)
  show ?case
  proof (cases "a \<in> set ns \<and> b \<in> set ns")
    case True
    then have "a \<in> set (concat ?P)" "b \<in> set (concat ?P)" by (simp_all only: cover)
    from same_block_join [OF this] show ?thesis
      unfolding step e using True by (simp add: snoc.IH connected_snoc)
  next
    case False
    then have "\<not> ((\<exists>x \<in> set ?P. a \<in> set x) \<and> (\<exists>x \<in> set ?P. b \<in> set x))"
      using cover by auto
    then have "join a b ?P = ?P" unfolding join_def by (rule if_not_P)
    moreover have "linked_by_path ns (es @ [e]) u v \<longleftrightarrow> linked_by_path ns es u v"
      unfolding linked_by_path_def e linked_snoc_absent [OF False] ..
    ultimately show ?thesis unfolding step by (simp add: snoc.IH)
  qed
qed

lemma connected_components_correct:
  "same_block (connected_components g) u v \<longleftrightarrow> linked_by_path (gnodes g) (gedges g) u v"
  unfolding connected_components_def by (rule same_block_joins)

subsection \<open>One round of the greedy loop\<close>

lemma try_edges_best:
  assumes "\<forall>e \<in> set es. fst e \<in> set (gnodes g) \<and> snd e \<in> set (gnodes g)
             \<and> \<not> has_edge g (fst e) (snd e)"
  shows "try_edges T obj es (g, ms, me) =
           Inr (g, best (\<lambda>e. C (add_edge g e) (add_edge g e) T - obj) es (ms, me))"
  using assms
proof (induction es arbitrary: ms me)
  case Nil
  then show ?case by simp
next
  case (Cons e es)
  have "remove_edge (add_edge g (fst e, snd e)) (fst e, snd e) = Inr g"
    using Cons.prems by (intro remove_added_edge) simp_all
  then have r: "remove_edge (add_edge g e) e = Inr g" by simp
  have ih: "try_edges T obj es (g, ms', me') =
      Inr (g, best (\<lambda>e. C (add_edge g e) (add_edge g e) T - obj) es (ms', me'))" for ms' me'
    using Cons.prems by (intro Cons.IH) simp
  show ?case by (simp add: r ih Let_def)
qed

lemma best_cases:
  assumes "best f es (ms, me) = (ms', me')"
  shows "(ms' = ms \<and> me' = me \<and> (\<forall>x \<in> set es. f x \<le> ms))
       \<or> (\<exists>pre e post. es = pre @ e # post \<and> me' = Some e \<and> ms' = f e \<and> ms < f e
             \<and> (\<forall>x \<in> set pre. f x < f e) \<and> (\<forall>x \<in> set post. f x \<le> f e))"
  using assms
proof (induction es arbitrary: ms me)
  case Nil
  then show ?case by simp
next
  case (Cons x es)
  show ?case
  proof (cases "f x > ms")
    case True
    with Cons.prems have b: "best f es (f x, Some x) = (ms', me')" by simp
    from Cons.IH [OF b] show ?thesis
    proof (elim disjE exE conjE)
      assume "ms' = f x" "me' = Some x" "\<forall>y \<in> set es. f y \<le> f x"
      then have "x # es = [] @ x # es \<and> me' = Some x \<and> ms' = f x \<and> ms < f x
          \<and> (\<forall>y \<in> set []. f y < f x) \<and> (\<forall>y \<in> set es. f y \<le> f x)"
        using True by simp
      then show ?thesis by blast
    next
      fix pre e post
      assume "es = pre @ e # post" "me' = Some e" "ms' = f e" "f x < f e"
        "\<forall>y \<in> set pre. f y < f e" "\<forall>y \<in> set post. f y \<le> f e"
      then have "x # es = (x # pre) @ e # post \<and> me' = Some e \<and> ms' = f e \<and> ms < f e
          \<and> (\<forall>y \<in> set (x # pre). f y < f e) \<and> (\<forall>y \<in> set post. f y \<le> f e)"
        using True by simp
      then show ?thesis by blast
    qed
  next
    case False
    with Cons.prems have b: "best f es (ms, me) = (ms', me')" by simp
    from Cons.IH [OF b] show ?thesis
    proof (elim disjE exE conjE)
      assume "ms' = ms" "me' = me" "\<forall>y \<in> set es. f y \<le> ms"
      then show ?thesis using False by simp
    next
      fix pre e post
      assume "es = pre @ e # post" "me' = Some e" "ms' = f e" "ms < f e"
        "\<forall>y \<in> set pre. f y < f e" "\<forall>y \<in> set post. f y \<le> f e"
      then have "x # es = (x # pre) @ e # post \<and> me' = Some e \<and> ms' = f e \<and> ms < f e
          \<and> (\<forall>y \<in> set (x # pre). f y < f e) \<and> (\<forall>y \<in> set post. f y \<le> f e)"
        using False by simp
      then show ?thesis by blast
    qed
  qed
qed

lemma improving_candidate:
  assumes "loop_inv T st" "objfn st < 0"
  shows "\<exists>e \<in> set (PossE st). 0 < gain T st e"
proof -
  let ?g = "G st"
  from assms have neg: "C ?g ?g T < 0" by (simp add: loop_inv_def)
  then obtain c where c: "c \<in> set T" "2 \<le> number_connected_components (subgraph ?g c)"
    using C_negative_disconnected by blast
  have d: "distinct (gnodes ?g)" using assms(1) by (simp add: loop_inv_def wf_graph_def)
  from disconnected_pair [OF d c(2)] obtain u v where
    uv: "u \<in> set c" "v \<in> set c" "u \<in> set (gnodes ?g)" "v \<in> set (gnodes ?g)" "u \<noteq> v"
    and apart: "\<not> same_block (connected_components (subgraph ?g c)) u v"
    by blast
  have apart': "\<not> same_block (connected_components (subgraph ?g c)) v u"
    using apart same_block_sym by blast
  have ne: "\<not> has_edge ?g u v" using apart has_edge_same_block uv by blast
  then have ne': "\<not> has_edge ?g v u" by (simp add: has_edge_def)
  have "covered T ?g (PossE st)" using assms(1) by (simp add: loop_inv_def)
  with c(1) uv ne have "(u, v) \<in> set (PossE st) \<or> (v, u) \<in> set (PossE st)"
    unfolding covered_def by blast
  then show ?thesis
  proof
    assume m: "(u, v) \<in> set (PossE st)"
    have "C ?g ?g T < C (add_edge ?g (u, v)) (add_edge ?g (u, v)) T"
      unfolding add_edge_fresh [OF uv(3,4) ne]
      using c(1) uv(1-4) apart by (rule C_add_edge_gain)
    then have "0 < gain T st (u, v)" using assms(1) by (simp add: gain_def loop_inv_def)
    with m show ?thesis by blast
  next
    assume m: "(v, u) \<in> set (PossE st)"
    have "C ?g ?g T < C (add_edge ?g (v, u)) (add_edge ?g (v, u)) T"
      unfolding add_edge_fresh [OF uv(4,3) ne']
      using c(1) uv(2,1,4,3) apart' by (rule C_add_edge_gain)
    then have "0 < gain T st (v, u)" using assms(1) by (simp add: gain_def loop_inv_def)
    with m show ?thesis by blast
  qed
qed

lemma greedy_step_chosen:
  assumes "loop_inv T st" "objfn st < 0" "shuffle r (PossE st) = (P, r1)"
  shows "\<exists>pre e post. P = pre @ e # post \<and> 0 < gain T st e
           \<and> (\<forall>x \<in> set pre. gain T st x < gain T st e)
           \<and> (\<forall>x \<in> set post. gain T st x \<le> gain T st e)
           \<and> e \<notin> set pre \<and> e \<notin> set post
           \<and> greedy_step T r st =
               Inr (\<lparr>G = add_edge (G st) e, PossE = pre @ post, max_edge = Some e,
                     objfn = C (add_edge (G st) e) (add_edge (G st) e) T\<rparr>, r1)"
proof -
  let ?g = "G st"
  let ?f = "gain T st"
  have f: "(\<lambda>e. C (add_edge ?g e) (add_edge ?g e) T - objfn st) = ?f"
    by (simp add: gain_def fun_eq_iff)
  have setP: "set P = set (PossE st)" using assms(3) by (rule shuffle_set)
  have dP: "distinct P" using shuffle_distinct [OF assms(3)] assms(1)
    by (simp add: loop_inv_def candidates_ok_def)
  have ok: "\<forall>e \<in> set P. fst e \<in> set (gnodes ?g) \<and> snd e \<in> set (gnodes ?g)
             \<and> \<not> has_edge ?g (fst e) (snd e)"
    using assms(1) setP by (simp add: loop_inv_def candidates_ok_def)
  obtain ms' me' where b: "best ?f P (0, max_edge st) = (ms', me')"
    by (cases "best ?f P (0, max_edge st)")
  have "try_edges T (objfn st) P (?g, 0, max_edge st) = Inr (?g, best ?f P (0, max_edge st))"
    using try_edges_best [OF ok, of T "objfn st" 0 "max_edge st"] unfolding f .
  then have t: "try_edges T (objfn st) P (?g, 0, max_edge st) = Inr (?g, ms', me')"
    using b by simp
  from improving_candidate [OF assms(1,2)] setP
  have "\<not> (\<forall>x \<in> set P. ?f x \<le> 0)" by (auto simp: not_le)
  with best_cases [OF b] obtain pre e post where
    sel: "P = pre @ e # post" "me' = Some e" "ms' = ?f e" "0 < ?f e"
      "\<forall>x \<in> set pre. ?f x < ?f e" "\<forall>x \<in> set post. ?f x \<le> ?f e"
    by blast
  have notin: "e \<notin> set pre" "e \<notin> set post" using dP sel(1) by auto
  then have rm: "remove1 e P = pre @ post" by (simp add: sel(1) remove1_append)
  have "greedy_step T r st =
      Inr (\<lparr>G = add_edge ?g e, PossE = pre @ post, max_edge = Some e,
            objfn = C (add_edge ?g e) (add_edge ?g e) T\<rparr>, r1)"
    unfolding greedy_step_def assms(3) using t sel(2) rm
    by (simp add: Let_def sel(1))
  with sel notin show ?thesis by blast
qed

lemma has_edge_snoc:
  "has_edge (g\<lparr>gedges := gedges g @ [e]\<rparr>) a b \<longleftrightarrow> has_edge g a b \<or> (a, b) = e \<or> (b, a) = e"
  by (auto simp: has_edge_def)

lemma wf_graph_snoc:
  assumes "wf_graph g" "fst e \<in> set (gnodes g)" "snd e \<in> set (gnodes g)"
    "\<not> has_edge g (fst e) (snd e)"
  shows "wf_graph (g\<lparr>gedges := gedges g @ [e]\<rparr>)"
proof -
  have e: "e \<notin> set (gedges g)" "(snd e, fst e) \<notin> set (gedges g)"
    using assms(4) by (simp_all add: has_edge_def)
  have "(snd x, fst x) \<noteq> e" if "x \<in> set (gedges g)" for x
    using that e(2) by (cases x; cases e) auto
  then show ?thesis
    using assms(1-3) e unfolding wf_graph_def by (auto simp: prod_eq_iff)
qed

lemma candidates_ok_remove:
  assumes "candidates_ok g (pre @ e # post)" "e \<notin> set pre" "e \<notin> set post"
  shows "candidates_ok (g\<lparr>gedges := gedges g @ [e]\<rparr>) (pre @ post)"
  unfolding candidates_ok_def
proof (intro conjI ballI)
  show "distinct (pre @ post)" using assms(1) by (simp add: candidates_ok_def)
next
  fix x assume x: "x \<in> set (pre @ post)"
  then have xin: "x \<in> set (pre @ e # post)" by auto
  have ein: "e \<in> set (pre @ e # post)" by simp
  from x assms(2,3) have xe: "x \<noteq> e" by auto
  have ok: "fst x \<in> set (gnodes g)" "snd x \<in> set (gnodes g)" "\<not> has_edge g (fst x) (snd x)"
    "fst x \<noteq> snd x \<longrightarrow> (snd x, fst x) \<notin> set (pre @ e # post)"
    using assms(1) xin unfolding candidates_ok_def by blast+
  have rev: "(snd x, fst x) \<noteq> e"
  proof
    assume r: "(snd x, fst x) = e"
    show False
    proof (cases "fst x = snd x")
      case True
      with r have "x = e" by (cases x) auto
      with xe show False by simp
    next
      case False
      with ok(4) r ein show False by simp
    qed
  qed
  show "fst x \<in> set (gnodes (g\<lparr>gedges := gedges g @ [e]\<rparr>))" using ok by simp
  show "snd x \<in> set (gnodes (g\<lparr>gedges := gedges g @ [e]\<rparr>))" using ok by simp
  show "\<not> has_edge (g\<lparr>gedges := gedges g @ [e]\<rparr>) (fst x) (snd x)"
    using ok(3) xe rev by (simp add: has_edge_snoc)
  show "fst x \<noteq> snd x \<longrightarrow> (snd x, fst x) \<notin> set (pre @ post)"
    using ok(4) by auto
qed

lemma covered_remove:
  assumes "covered T g (pre @ e # post)"
  shows "covered T (g\<lparr>gedges := gedges g @ [e]\<rparr>) (pre @ post)"
  using assms unfolding covered_def has_edge_snoc by (simp add: Ball_def) blast

lemma inv_step:
  assumes "loop_inv T st" "objfn st < 0" "greedy_step T r st = Inr (st', r')"
  shows "loop_inv T st'"
proof -
  obtain P r1 where sh: "shuffle r (PossE st) = (P, r1)" by (cases "shuffle r (PossE st)")
  let ?g = "G st"
  from greedy_step_chosen [OF assms(1,2) sh] assms(3) obtain pre e post where
    P: "P = pre @ e # post" and notin: "e \<notin> set pre" "e \<notin> set post"
    and st': "st' = \<lparr>G = add_edge ?g e, PossE = pre @ post, max_edge = Some e,
                    objfn = C (add_edge ?g e) (add_edge ?g e) T\<rparr>"
    by auto
  have setP: "set P = set (PossE st)" using sh by (rule shuffle_set)
  have dP: "distinct P" using shuffle_distinct [OF sh] assms(1)
    by (simp add: loop_inv_def candidates_ok_def)
  have cand: "candidates_ok ?g P"
    using assms(1) setP dP by (simp add: loop_inv_def candidates_ok_def)
  have cov: "covered T ?g P" using assms(1) setP by (simp add: loop_inv_def covered_def)
  have e: "fst e \<in> set (gnodes ?g)" "snd e \<in> set (gnodes ?g)" "\<not> has_edge ?g (fst e) (snd e)"
    using cand unfolding candidates_ok_def P by simp_all
  have "add_edge ?g (fst e, snd e) = ?g\<lparr>gedges := gedges ?g @ [(fst e, snd e)]\<rparr>"
    using e by (rule add_edge_fresh)
  then have add: "add_edge ?g e = ?g\<lparr>gedges := gedges ?g @ [e]\<rparr>" by simp
  have "wf_graph (add_edge ?g e)"
    unfolding add using assms(1) e by (intro wf_graph_snoc) (simp_all add: loop_inv_def)
  moreover have "\<forall>t \<in> set T. set t \<subseteq> set (gnodes (add_edge ?g e))"
    unfolding add using assms(1) by (simp add: loop_inv_def)
  moreover have "candidates_ok (add_edge ?g e) (pre @ post)"
    unfolding add using cand notin unfolding P by (rule candidates_ok_remove)
  moreover have "covered T (add_edge ?g e) (pre @ post)"
    unfolding add using cov unfolding P by (rule covered_remove)
  ultimately show ?thesis unfolding st' loop_inv_def by simp
qed

subsection \<open>The initial graph and the whole loop\<close>

lemma allpairs_subset: "(u, v) \<in> set (allpairs t) \<Longrightarrow> u \<in> set t \<and> v \<in> set t"
  by (induction t) auto

lemma allpairs_complete:
  "u \<in> set t \<Longrightarrow> v \<in> set t \<Longrightarrow> u \<noteq> v \<Longrightarrow>
     (u, v) \<in> set (allpairs t) \<or> (v, u) \<in> set (allpairs t)"
  by (induction t) auto

lemma add_nodes_gedges:
  "gedges (fold (\<lambda>n g. if \<not> has_node g n then add_node g n else g) t g) = gedges g"
  by (induction t arbitrary: g) (simp_all add: add_node_def)

lemma add_nodes_set:
  "set (gnodes (fold (\<lambda>n g. if \<not> has_node g n then add_node g n else g) t g))
     = set (gnodes g) \<union> set t"
  by (induction t arbitrary: g) (auto simp: add_node_def has_node_def)

lemma add_nodes_distinct:
  "distinct (gnodes g) \<Longrightarrow>
     distinct (gnodes (fold (\<lambda>n g. if \<not> has_node g n then add_node g n else g) t g))"
  by (induction t arbitrary: g) (simp_all add: add_node_def has_node_def)

lemma add_pair_set: "set (add_pair p P) \<subseteq> insert p (set P) \<and> set P \<subseteq> set (add_pair p P)"
  by (cases p) (auto simp: add_pair_def)

lemma add_pair_has: "p \<in> set (add_pair p P) \<or> (snd p, fst p) \<in> set (add_pair p P)"
  by (cases p) (auto simp: add_pair_def)

lemma add_pair_distinct: "distinct P \<Longrightarrow> distinct (add_pair p P)"
  by (cases p) (auto simp: add_pair_def)

lemma add_pair_no_reverse: "no_reverse P \<Longrightarrow> no_reverse (add_pair p P)"
  by (cases p) (auto simp: add_pair_def no_reverse_def)

lemma add_pairs_set:
  "set (fold add_pair ps P) \<subseteq> set ps \<union> set P \<and> set P \<subseteq> set (fold add_pair ps P)"
proof (induction ps arbitrary: P)
  case Nil
  then show ?case by simp
next
  case (Cons p ps)
  from Cons.IH [of "add_pair p P"] add_pair_set [of p P] show ?case by auto
qed

lemma add_pairs_has:
  "p \<in> set ps \<Longrightarrow> p \<in> set (fold add_pair ps P) \<or> (snd p, fst p) \<in> set (fold add_pair ps P)"
proof (induction ps arbitrary: P)
  case Nil
  then show ?case by simp
next
  case (Cons q ps)
  show ?case
  proof (cases "p = q")
    case True
    from add_pair_has [of p P] add_pairs_set [of ps "add_pair p P"] True
    show ?thesis by auto
  next
    case False
    with Cons.prems have "p \<in> set ps" by simp
    from Cons.IH [OF this, of "add_pair q P"] show ?thesis by simp
  qed
qed

lemma add_pairs_distinct: "distinct P \<Longrightarrow> distinct (fold add_pair ps P)"
  by (induction ps arbitrary: P) (simp_all add: add_pair_distinct)

lemma add_pairs_no_reverse: "no_reverse P \<Longrightarrow> no_reverse (fold add_pair ps P)"
  by (induction ps arbitrary: P) (simp_all add: add_pair_no_reverse)

lemma built_add_term:
  assumes "built Ts s"
  shows "built (Ts @ [t]) (add_term t s)"
proof -
  obtain g P where s: "s = (g, P)" by (cases s)
  let ?g = "fold (\<lambda>n g. if \<not> has_node g n then add_node g n else g) t g"
  let ?P = "fold add_pair (allpairs t) P"
  have a: "add_term t s = (?g, ?P)" by (simp add: add_term_def s)
  from assms have b: "gedges g = []" "distinct (gnodes g)" "\<forall>t \<in> set Ts. set t \<subseteq> set (gnodes g)"
    "distinct P" "no_reverse P" "\<forall>e \<in> set P. fst e \<in> set (gnodes g) \<and> snd e \<in> set (gnodes g)"
    "\<forall>t \<in> set Ts. \<forall>u \<in> set t. \<forall>v \<in> set t. u \<noteq> v \<longrightarrow> (u, v) \<in> set P \<or> (v, u) \<in> set P"
    unfolding built_def s by simp_all
  have sub: "set ?P \<subseteq> set (allpairs t) \<union> set P" "set P \<subseteq> set ?P"
    using add_pairs_set [of "allpairs t" P] by simp_all
  have 1: "gedges ?g = []" using b(1) by (simp add: add_nodes_gedges)
  have 2: "distinct (gnodes ?g)" using b(2) by (rule add_nodes_distinct)
  have 3: "\<forall>t' \<in> set (Ts @ [t]). set t' \<subseteq> set (gnodes ?g)"
    using b(3) by (auto simp: add_nodes_set)
  have 4: "distinct ?P" using b(4) by (rule add_pairs_distinct)
  have 5: "no_reverse ?P" using b(5) by (rule add_pairs_no_reverse)
  have 6: "\<forall>e \<in> set ?P. fst e \<in> set (gnodes ?g) \<and> snd e \<in> set (gnodes ?g)"
  proof
    fix e assume "e \<in> set ?P"
    with sub(1) consider "e \<in> set (allpairs t)" | "e \<in> set P" by blast
    then show "fst e \<in> set (gnodes ?g) \<and> snd e \<in> set (gnodes ?g)"
    proof cases
      case 1
      then have "(fst e, snd e) \<in> set (allpairs t)" by simp
      from allpairs_subset [OF this] show ?thesis by (simp add: add_nodes_set)
    next
      case 2
      with b(6) show ?thesis by (simp add: add_nodes_set)
    qed
  qed
  have 7: "\<forall>t' \<in> set (Ts @ [t]). \<forall>u \<in> set t'. \<forall>v \<in> set t'.
      u \<noteq> v \<longrightarrow> (u, v) \<in> set ?P \<or> (v, u) \<in> set ?P"
  proof (intro ballI impI)
    fix t' u v assume t': "t' \<in> set (Ts @ [t])" and uv: "u \<in> set t'" "v \<in> set t'" "u \<noteq> v"
    show "(u, v) \<in> set ?P \<or> (v, u) \<in> set ?P"
    proof (cases "t' \<in> set Ts")
      case True
      with b(7) uv have "(u, v) \<in> set P \<or> (v, u) \<in> set P" by blast
      with sub(2) show ?thesis by blast
    next
      case False
      with t' have "t' = t" by simp
      with uv have "(u, v) \<in> set (allpairs t) \<or> (v, u) \<in> set (allpairs t)"
        by (intro allpairs_complete) simp_all
      then show ?thesis
        using add_pairs_has [of "(u, v)" "allpairs t" P] add_pairs_has [of "(v, u)" "allpairs t" P]
        by auto
    qed
  qed
  show ?thesis unfolding a built_def using 1 2 3 4 5 6 7 by simp
qed

lemma built_fold: "built Ts s \<Longrightarrow> built (Ts @ T) (fold add_term T s)"
proof (induction T arbitrary: Ts s)
  case Nil
  then show ?case by simp
next
  case (Cons t T)
  from Cons.IH [OF built_add_term [OF Cons.prems, of t]] show ?case by simp
qed

lemma built_initial: "built T (initial_graph T)"
proof -
  have "built [] (empty_graph, [])" by (simp add: built_def empty_graph_def no_reverse_def)
  from built_fold [OF this, of T] show ?thesis by (simp add: initial_graph_def)
qed

lemma inv_loop_entry: "loop_inv T (loop_entry T me)"
proof -
  obtain g P where i: "initial_graph T = (g, P)" by (cases "initial_graph T")
  from built_initial [of T] have b: "gedges g = []" "distinct (gnodes g)"
    "\<forall>t \<in> set T. set t \<subseteq> set (gnodes g)"
    "distinct P" "no_reverse P" "\<forall>e \<in> set P. fst e \<in> set (gnodes g) \<and> snd e \<in> set (gnodes g)"
    "\<forall>t \<in> set T. \<forall>u \<in> set t. \<forall>v \<in> set t. u \<noteq> v \<longrightarrow> (u, v) \<in> set P \<or> (v, u) \<in> set P"
    unfolding built_def i by simp_all
  have "wf_graph g" using b(1,2) by (simp add: wf_graph_def)
  moreover have "candidates_ok g P"
    using b(1,4,5,6) by (simp add: candidates_ok_def no_reverse_def has_edge_def)
  moreover have "covered T g P" using b(7) unfolding covered_def by blast
  ultimately show ?thesis using b(3) by (simp add: loop_entry_def i loop_inv_def)
qed

lemma steps_trans: "steps T st1 st2 \<Longrightarrow> steps T st0 st1 \<Longrightarrow> steps T st0 st2"
  by (induction rule: steps.induct) (auto intro: steps.intros)

lemma steps_inv: "steps T st st' \<Longrightarrow> loop_inv T st \<Longrightarrow> loop_inv T st'"
  by (induction rule: steps.induct) (auto intro: inv_step)

lemma reachable_inv: "reachable T st \<Longrightarrow> loop_inv T st"
  unfolding reachable_def using steps_inv inv_loop_entry by blast

lemma steps_PossE: "steps T st st' \<Longrightarrow> set (PossE st') \<subseteq> set (PossE st)"
proof (induction rule: steps.induct)
  case (steps_refl st)
  then show ?case by simp
next
  case (steps_step st st1 r st2 r')
  from greedy_step_PossE [OF steps_step.hyps(3)] obtain P e where
    "shuffle r (PossE st1) = (P, r')" "PossE st2 = remove1 e P" by blast
  then have "set (PossE st2) \<subseteq> set (PossE st1)"
    using shuffle_set set_remove1_subset by fastforce
  with steps_step.IH show ?case by blast
qed

lemma greedy_loop_total:
  assumes "loop_inv T st"
  shows "\<exists>st' r'. greedy_loop T r st = Inr (st', r') \<and> steps T st st' \<and> 0 \<le> objfn st'"
  using assms
proof (induction T r st rule: greedy_loop.induct)
  case (1 T r st)
  show ?case
  proof (cases "objfn st < 0")
    case True
    obtain P r1 where sh: "shuffle r (PossE st) = (P, r1)" by (cases "shuffle r (PossE st)")
    from greedy_step_chosen [OF "1.prems" True sh] obtain st1 where
      s: "greedy_step T r st = Inr (st1, r1)" by blast
    have i1: "loop_inv T st1" using "1.prems" True s by (rule inv_step)
    from "1.IH" [OF True s refl i1] obtain st' r' where
      l: "greedy_loop T r1 st1 = Inr (st', r')" "steps T st1 st'" "0 \<le> objfn st'" by blast
    have "steps T st st1" using steps_refl True s by (rule steps_step)
    with l(2) have "steps T st st'" by (rule steps_trans)
    moreover have "greedy_loop T r st = Inr (st', r')"
      using True s l(1) by (simp add: greedy_loop.simps [of T r st])
    ultimately show ?thesis using l(3) by blast
  next
    case False
    then have "greedy_loop T r st = Inr (st, r)" by (simp add: greedy_loop.simps [of T r st])
    with False show ?thesis by (auto intro: steps_refl)
  qed
qed

lemma C_bounds:
  assumes "\<forall>c \<in> set s. \<exists>n \<in> set c. has_node gr n"
  shows "C gr g s \<le> 0"
    and "C gr g s = 0 \<longleftrightarrow> (\<forall>c \<in> set s. number_connected_components (subgraph gr c) = 1)"
proof -
  let ?f = "\<lambda>c. 1 - int (number_connected_components (subgraph gr c))"
  have nonpos: "?f c \<le> 0" if "c \<in> set s" for c
    using ncc_ge_1 [OF subgraph_nodes_not_Nil] assms that by fastforce
  have "sum_list (map ?f s) \<le> 0" using nonpos by (rule sum_list_nonpos)
  then show "C gr g s \<le> 0" by (simp add: C_sum_list)
  have "sum_list (map ?f s) = 0 \<longleftrightarrow> (\<forall>c \<in> set s. ?f c = 0)"
    using nonpos by (rule sum_list_nonpos_eq_0_iff)
  then show "C gr g s = 0 \<longleftrightarrow> (\<forall>c \<in> set s. number_connected_components (subgraph gr c) = 1)"
    by (simp add: C_sum_list)
qed

lemma candidate_fresh:
  assumes "loop_inv T st" "e \<in> set (PossE st)"
  shows "fst e \<in> set (gnodes (G st))" "snd e \<in> set (gnodes (G st))"
    "\<not> has_edge (G st) (fst e) (snd e)"
  using assms unfolding loop_inv_def candidates_ok_def by blast+


lemma split_tab_not_Nil: "split_tab acc s \<noteq> []"
  by (induction s arbitrary: acc) simp_all




lemmas eval_defs = loop_entry_def initial_graph_def add_term_def add_pair_def add_node_def
  has_node_def empty_graph_def C_def number_connected_components_def connected_components_def
  subgraph_def join_def

lemma loop_entry_example:
  "loop_entry [[''X'', ''Y''], [''Y'', ''Z'']] None =
     \<lparr>G = \<lparr>gnodes = [''X'', ''Y'', ''Z''], gedges = []\<rparr>,
      PossE = [(''X'', ''Y''), (''Y'', ''Z'')], max_edge = None, objfn = - 2\<rparr>"
  by (simp add: eval_defs)

subsection \<open>Counting edges\<close>

lemma increment_result:
  "increment k d = Inr d' \<longleftrightarrow> (\<exists>n. map_of d k = Some n \<and> d' = AList.update k (n + 1) d)"
  by (auto simp: increment_def split: option.splits)

lemma count_edge_key_of: "count_edge e d = increment (key_of d e) d"
  by (simp add: count_edge_def key_of_def)

lemma increment_map_of:
  assumes "increment k d = Inr d'"
  shows "\<exists>n. map_of d k = Some n \<and> map_of d' = (map_of d)(k \<mapsto> n + 1)"
  using assms by (auto simp: increment_result update_conv')

lemma increment_keys:
  assumes "increment k d = Inr d'"
  shows "map fst d' = map fst d"
proof -
  from assms obtain n where n: "map_of d k = Some n" "d' = AList.update k (n + 1) d"
    by (auto simp: increment_result)
  from n(1) have "k \<in> fst ` set d" by (rule map_of_SomeD [THEN imageI [where f = fst], simplified])
  then show ?thesis by (simp add: n(2) update_keys)
qed

lemma map_of_None_keys: "map_of d k = None \<longleftrightarrow> k \<notin> set (map fst d)"
  by (simp add: map_of_eq_None_iff)

lemma key_of_keys: "map fst d' = map fst d \<Longrightarrow> key_of d' e = key_of d e"
  by (simp add: key_of_def map_of_None_keys)

lemma count_edges_value:
  assumes "count_edges es d = Inr d'" "map_of d k = Some n"
  shows "map_of d' k = Some (n + int (length (filter (\<lambda>e. key_of d e = k) es)))"
  using assms
proof (induction es arbitrary: d n)
  case Nil
  then show ?case by simp
next
  case (Cons e es)
  from Cons.prems(1) obtain d1 where d1: "count_edge e d = Inr d1" "count_edges es d1 = Inr d'"
    by (auto split: sum.splits)
  from d1(1) have inc: "increment (key_of d e) d = Inr d1" by (simp add: count_edge_key_of)
  from increment_map_of [OF inc] obtain m where
    m: "map_of d (key_of d e) = Some m" "map_of d1 = (map_of d)(key_of d e \<mapsto> m + 1)" by blast
  have keys: "map fst d1 = map fst d" using inc by (rule increment_keys)
  have ko: "key_of d1 = key_of d" using key_of_keys [OF keys] by (simp add: fun_eq_iff)
  show ?case
  proof (cases "key_of d e = k")
    case True
    with m Cons.prems(2) have "map_of d1 k = Some (n + 1)" by simp
    from Cons.IH [OF d1(2) this] True show ?thesis by (simp add: ko)
  next
    case False
    with m Cons.prems(2) have "map_of d1 k = Some n" by simp
    from Cons.IH [OF d1(2) this] False show ?thesis by (simp add: ko)
  qed
qed

lemma count_edges_keys: "count_edges es d = Inr d' \<Longrightarrow> map fst d' = map fst d"
proof (induction es arbitrary: d)
  case Nil
  then show ?case by simp
next
  case (Cons e es)
  from Cons.prems obtain d1 where d1: "count_edge e d = Inr d1" "count_edges es d1 = Inr d'"
    by (auto split: sum.splits)
  from d1(1) have "map fst d1 = map fst d" by (simp add: count_edge_key_of increment_keys)
  with Cons.IH [OF d1(2)] show ?case by simp
qed

lemma count_edges_KeyError:
  assumes "e \<in> set es" "map_of d e = None" "map_of d (snd e, fst e) = None"
  shows "count_edges es d = Inl KeyError"
  using assms
proof (induction es arbitrary: d)
  case Nil
  then show ?case by simp
next
  case (Cons x es)
  show ?case
  proof (cases "count_edge x d")
    case (Inl err)
    then have "err = KeyError"
      by (auto simp: count_edge_def increment_def split: if_splits option.splits)
    with Inl show ?thesis by simp
  next
    case (Inr d1)
    then have keys: "map fst d1 = map fst d"
      by (simp add: count_edge_key_of increment_keys)
    have none: "map_of d1 e = None" "map_of d1 (snd e, fst e) = None"
      using Cons.prems(2,3) keys by (simp_all add: map_of_None_keys)
    have "e \<in> set es"
    proof (rule ccontr)
      assume "e \<notin> set es"
      with Cons.prems(1) have "x = e" by simp
      with Cons.prems(2,3) have "count_edge x d = Inl KeyError"
        by (simp add: count_edge_def increment_def)
      with Inr show False by simp
    qed
    from Cons.IH [OF this none] Inr show ?thesis by simp
  qed
qed

lemma filter_pair_at_most_once:
  assumes "distinct es" "no_reverse es" "\<And>e. p e \<Longrightarrow> e = k \<or> e = (snd k, fst k)"
  shows "length (filter p es) \<le> 1"
  using assms(1,2)
proof (induction es)
  case Nil
  then show ?case by simp
next
  case (Cons x xs)
  have nr: "no_reverse xs" using Cons.prems(2) by (auto simp: no_reverse_def)
  show ?case
  proof (cases "p x")
    case False
    with Cons.IH Cons.prems(1) nr show ?thesis by simp
  next
    case True
    have "\<not> p y" if y: "y \<in> set xs" for y
    proof
      assume "p y"
      from assms(3) [OF this] assms(3) [OF True] have c: "y = x \<or> y = (snd x, fst x)"
        by (cases x; cases y; cases k) auto
      from y Cons.prems(1) have "y \<noteq> x" by auto
      with c have yr: "y = (snd x, fst x)" by simp
      with \<open>y \<noteq> x\<close> have "fst x \<noteq> snd x" by (cases x) auto
      with Cons.prems(2) have "(snd x, fst x) \<notin> set (x # xs)" unfolding no_reverse_def by simp
      with yr y show False by simp
    qed
    then have "filter p xs = []" by (simp add: filter_empty_conv)
    with True show ?thesis by simp
  qed
qed

lemma count_edges_at_most_one:
  assumes "count_edges es d = Inr d'" "distinct es" "no_reverse es" "map_of d k = Some n"
  shows "map_of d' k = Some n \<or> map_of d' k = Some (n + 1)"
proof -
  have "length (filter (\<lambda>e. key_of d e = k) es) \<le> 1"
    using assms(2,3)
  proof (rule filter_pair_at_most_once [where k = k])
    fix e assume "key_of d e = k"
    then show "e = k \<or> e = (snd k, fst k)" by (cases e) (auto simp: key_of_def split: if_splits)
  qed
  then have "length (filter (\<lambda>e. key_of d e = k) es) = 0 \<or> length (filter (\<lambda>e. key_of d e = k) es) = 1"
    by linarith
  with count_edges_value [OF assms(1,4)] show ?thesis by auto
qed

lemma nbrs_set:
  "set (concat (map (\<lambda>e. if fst e = n then [snd e] else if snd e = n then [fst e] else []) es))
     = {m. (n, m) \<in> set es \<or> (m, n) \<in> set es}"
  by (induction es) (auto split: if_splits)

lemma nbrs_distinct:
  assumes "distinct es" "no_reverse es"
  shows "distinct (concat (map (\<lambda>e. if fst e = n then [snd e] else if snd e = n then [fst e] else []) es))"
  using assms
proof (induction es)
  case Nil
  then show ?case by simp
next
  case (Cons e es)
  have nr: "no_reverse es" using Cons.prems(2) by (auto simp: no_reverse_def)
  have ih: "distinct (concat (map (\<lambda>e. if fst e = n then [snd e] else if snd e = n then [fst e] else []) es))"
    using Cons.IH Cons.prems(1) nr by simp
  have e: "e \<notin> set es" using Cons.prems(1) by simp
  have r: "fst e \<noteq> snd e \<Longrightarrow> (snd e, fst e) \<notin> set es"
    using Cons.prems(2) by (simp add: no_reverse_def)
  let ?c = "\<lambda>e. if fst e = n then [snd e] else if snd e = n then [fst e] else []"
  have s: "set (concat (map ?c es)) = {m. (n, m) \<in> set es \<or> (m, n) \<in> set es}"
    by (rule nbrs_set)
  have "set (?c e) \<inter> set (concat (map ?c es)) = {}"
    unfolding s using e r by (cases e) auto
  moreover have "distinct (?c e)" by simp
  moreover have "concat (map ?c (e # es)) = ?c e @ concat (map ?c es)" by simp
  ultimately show ?case using ih by (simp only: distinct_append)
qed

lemma neighbors_distinct: "wf_graph g \<Longrightarrow> distinct (neighbors g n)"
  unfolding neighbors_def
  by (rule nbrs_distinct) (auto simp: wf_graph_def no_reverse_def)

lemma edges_from_mem:
  "(a, b) \<in> set (edges_from g seen ns) \<Longrightarrow> a \<in> set ns \<and> b \<notin> set seen"
proof (induction ns arbitrary: seen)
  case Nil
  then show ?case by simp
next
  case (Cons n ns)
  from Cons.prems consider "a = n \<and> b \<notin> set seen" | "(a, b) \<in> set (edges_from g (n # seen) ns)"
    by auto
  then show ?case
  proof cases
    case 1
    then show ?thesis by simp
  next
    case 2
    from Cons.IH [OF this] show ?thesis by simp
  qed
qed

lemma edges_from_wf:
  assumes "distinct ns" "\<And>n. distinct (neighbors g n)"
  shows "distinct (edges_from g seen ns) \<and> no_reverse (edges_from g seen ns)"
  using assms(1)
proof (induction ns arbitrary: seen)
  case Nil
  then show ?case by (simp add: no_reverse_def)
next
  case (Cons n ns)
  let ?H = "map (Pair n) (filter (\<lambda>m. m \<notin> set seen) (neighbors g n))"
  let ?R = "edges_from g (n # seen) ns"
  have ih: "distinct ?R" "no_reverse ?R" using Cons.IH [of "n # seen"] Cons.prems by simp_all
  have dH: "distinct ?H" using assms(2) by (simp add: distinct_map inj_on_def)
  have R: "a \<in> set ns \<and> b \<noteq> n \<and> b \<notin> set seen" if "(a, b) \<in> set ?R" for a b
    using edges_from_mem [OF that] by simp
  have disj: "set ?H \<inter> set ?R = {}" using R Cons.prems by auto
  have "no_reverse (?H @ ?R)"
    unfolding no_reverse_def
  proof (intro ballI impI)
    fix e assume e: "e \<in> set (?H @ ?R)" "fst e \<noteq> snd e"
    show "(snd e, fst e) \<notin> set (?H @ ?R)"
    proof (cases "e \<in> set ?H")
      case True
      then have f: "fst e = n" by auto
      with e(2) have "(snd e, fst e) \<notin> set ?H" by auto
      moreover have "(snd e, fst e) \<notin> set ?R" using R [of "snd e" "fst e"] f by auto
      ultimately show ?thesis by simp
    next
      case False
      with e(1) have eR: "e \<in> set ?R" by simp
      then have "(fst e, snd e) \<in> set ?R" by simp
      from R [OF this] have "snd e \<noteq> n" by simp
      then have "(snd e, fst e) \<notin> set ?H" by auto
      moreover have "(snd e, fst e) \<notin> set ?R" using ih(2) eR e(2) by (simp add: no_reverse_def)
      ultimately show ?thesis by simp
    qed
  qed
  moreover have "distinct (?H @ ?R)" using dH ih(1) disj by simp
  ultimately show ?case by simp
qed

lemma edges_view_wf:
  "wf_graph g \<Longrightarrow> distinct (edges_view g) \<and> no_reverse (edges_view g)"
  unfolding edges_view_def
  by (rule edges_from_wf) (simp_all add: wf_graph_def neighbors_distinct)

lemma greedy_loop_wf:
  assumes "greedy_loop T r (loop_entry T me) = Inr (st, r')"
  shows "wf_graph (G st)"
proof -
  from greedy_loop_total [where r = r, OF inv_loop_entry [of T me]] assms
  have "steps T (loop_entry T me) st" by auto
  from steps_inv [OF this inv_loop_entry] show ?thesis by (simp add: loop_inv_def)
qed

lemma bootstrap_round_alt:
  "bootstrap_round argv fs gl =
     (case choices (gen gl) languages 12 of
        Inl err \<Rightarrow> Inl err
      | Inr (L, r1) \<Rightarrow>
         (if length argv < 2 then Inl IndexError
          else (case fs (argv ! 1) of
             None \<Rightarrow> Inl FileNotFoundError
           | Some lines \<Rightarrow>
              (case read_data L lines of
                 Inl err \<Rightarrow> Inl err
               | Inr T \<Rightarrow>
                  (case greedy_loop T r1 (loop_entry T (last_edge gl)) of
                     Inl err \<Rightarrow> Inl err
                   | Inr (st, r2) \<Rightarrow>
                      (case count_edges (edges_view (G st)) (dict gl) of
                         Inl err \<Rightarrow> Inl err
                       | Inr d \<Rightarrow> Inr \<lparr>gen = r2, dict = d, last_edge = max_edge st\<rparr>))))))"
  unfolding bootstrap_round_def loop_entry_def
  by (simp split: sum.splits prod.splits option.splits)

lemma bootstrap_round_dict:
  assumes "bootstrap_round argv fs gl = Inr gl'"
  shows "\<exists>es. distinct es \<and> no_reverse es \<and> count_edges es (dict gl) = Inr (dict gl')"
proof -
  from assms obtain T r1 st r2 d where
    l: "greedy_loop T r1 (loop_entry T (last_edge gl)) = Inr (st, r2)"
    and c: "count_edges (edges_view (G st)) (dict gl) = Inr d"
    and g: "gl' = \<lparr>gen = r2, dict = d, last_edge = max_edge st\<rparr>"
    unfolding bootstrap_round_alt
    by (auto split: sum.splits prod.splits if_splits option.splits)
  from edges_view_wf [OF greedy_loop_wf [OF l]] c g show ?thesis by auto
qed

lemma bootstrap_round_entry:
  assumes "bootstrap_round argv fs gl = Inr gl'" "map_of (dict gl) k = Some n"
  shows "map_of (dict gl') k = Some n \<or> map_of (dict gl') k = Some (n + 1)"
  using bootstrap_round_dict [OF assms(1)] count_edges_at_most_one assms(2) by blast

lemma bootstrap_round_keys:
  "bootstrap_round argv fs gl = Inr gl' \<Longrightarrow> map fst (dict gl') = map fst (dict gl)"
  using bootstrap_round_dict count_edges_keys by blast

lemma bootstrap_entry:
  assumes "bootstrap i argv fs gl = Inr gl'" "map_of (dict gl) k = Some n"
  shows "\<exists>n'. map_of (dict gl') k = Some n' \<and> n \<le> n' \<and> n' \<le> n + int i"
  using assms
proof (induction i arbitrary: gl n)
  case 0
  then show ?case by simp
next
  case (Suc i)
  from Suc.prems(1) obtain gl1 where
    g: "bootstrap_round argv fs gl = Inr gl1" "bootstrap i argv fs gl1 = Inr gl'"
    by (auto split: sum.splits)
  from bootstrap_round_entry [OF g(1) Suc.prems(2)] obtain n1 where
    n1: "map_of (dict gl1) k = Some n1" "n \<le> n1" "n1 \<le> n + 1" by auto
  from Suc.IH [OF g(2) n1(1)] n1(2,3) show ?case by auto
qed

lemma bootstrap_keys:
  "bootstrap i argv fs gl = Inr gl' \<Longrightarrow> map fst (dict gl') = map fst (dict gl)"
proof (induction i arbitrary: gl)
  case 0
  then show ?case by simp
next
  case (Suc i)
  from Suc.prems obtain gl1 where
    g: "bootstrap_round argv fs gl = Inr gl1" "bootstrap i argv fs gl1 = Inr gl'"
    by (auto split: sum.splits)
  from Suc.IH [OF g(2)] bootstrap_round_keys [OF g(1)] show ?case by simp
qed

lemma edges_dictionary_zero: "map_of edges_dictionary k = Some n \<Longrightarrow> n = 0"
  unfolding edges_dictionary_def by (auto dest: map_of_SomeD)

subsection \<open>The final graph and the script\<close>

lemma allpairs_wf:
  "distinct ns \<Longrightarrow> distinct (allpairs ns) \<and> no_reverse (allpairs ns)"
proof (induction ns)
  case Nil
  then show ?case by (simp add: no_reverse_def)
next
  case (Cons x xs)
  then have ih: "distinct (allpairs xs)" "no_reverse (allpairs xs)" and x: "x \<notin> set xs"
    and d: "distinct xs" by simp_all
  have sub: "a \<in> set xs \<and> b \<in> set xs" if "(a, b) \<in> set (allpairs xs)" for a b
    using allpairs_subset [OF that] .
  have "distinct (map (Pair x) xs)" using d by (simp add: distinct_map inj_on_def)
  moreover have "set (map (Pair x) xs) \<inter> set (allpairs xs) = {}" using sub x by auto
  ultimately have 1: "distinct (allpairs (x # xs))" using ih(1) by simp
  have 2: "no_reverse (allpairs (x # xs))"
    unfolding no_reverse_def
  proof (intro ballI impI)
    fix e assume e: "e \<in> set (allpairs (x # xs))" "fst e \<noteq> snd e"
    show "(snd e, fst e) \<notin> set (allpairs (x # xs))"
    proof (cases "e \<in> set (map (Pair x) xs)")
      case True
      then have "fst e = x" "snd e \<in> set xs" by auto
      then show ?thesis using x sub [of "snd e" "fst e"] by auto
    next
      case False
      with e(1) have m: "(fst e, snd e) \<in> set (allpairs xs)" by simp
      from sub [OF this] x have "snd e \<noteq> x" by auto
      moreover have "(snd e, fst e) \<notin> set (allpairs xs)"
        using ih(2) m e(2) unfolding no_reverse_def by force
      ultimately show ?thesis by auto
    qed
  qed
  from 1 2 show ?case by simp
qed

lemma nodes_distinct: "distinct nodes"
  by (simp add: nodes_def)

lemma add_nodes_from_nodes:
  "add_nodes_from \<lparr>wnodes = [], wedges = []\<rparr> nodes = \<lparr>wnodes = nodes, wedges = []\<rparr>"
  by (simp add: add_nodes_from_def nodes_def)

lemma add_weighted_edge_fresh:
  assumes "u \<in> set (wnodes g)" "v \<in> set (wnodes g)"
    "(u, v) \<notin> fst ` set (wedges g)" "(v, u) \<notin> fst ` set (wedges g)"
  shows "add_weighted_edge g u v w = g\<lparr>wedges := wedges g @ [((u, v), w)]\<rparr>"
proof -
  have "add_nodes_from g [u, v] = g" using assms(1,2) by (simp add: add_nodes_from_def)
  moreover have "map_of (wedges g) (u, v) = None" "map_of (wedges g) (v, u) = None"
    using assms(3,4) by (simp_all add: map_of_eq_None_iff)
  ultimately show ?thesis by (simp add: add_weighted_edge_def)
qed

lemma round_half_even_bound: "\<bar>of_int (round_half_even x) - x\<bar> \<le> 1 / 2"
proof -
  have "of_int \<lfloor>x\<rfloor> \<le> x" "x < of_int \<lfloor>x\<rfloor> + 1" by linarith+
  then show ?thesis unfolding round_half_even_def Let_def by (auto simp: abs_le_iff)
qed

lemma bitlen_bounds_rat:
  assumes "0 < a"
  shows "2 powi (bitlen a - 1) \<le> (of_int a :: rat)" "(of_int a :: rat) < 2 powi (bitlen a)"
proof -
  from bitlen_bounds [OF assms] have b: "2 ^ nat (bitlen a - 1) \<le> a" "a < 2 ^ nat (bitlen a)"
    by simp_all
  have pos: "1 \<le> bitlen a" using assms bitlen_eq_zero_iff [of a] bitlen_nonneg [of a] by linarith
  have "(of_int (2 ^ nat (bitlen a - 1)) :: rat) \<le> of_int a" using b(1) by (simp only: of_int_le_iff)
  then show "2 powi (bitlen a - 1) \<le> (of_int a :: rat)"
    using pos by (simp add: power_int_nonneg_exp)
  have "(of_int a :: rat) < of_int (2 ^ nat (bitlen a))" using b(2) by (simp only: of_int_less_iff)
  then show "(of_int a :: rat) < 2 powi (bitlen a)"
    using pos by (simp add: power_int_nonneg_exp)
qed

lemma binade:
  assumes "0 < a" "0 < b"
  defines "q \<equiv> (of_int a / of_int b :: rat)"
  defines "d \<equiv> bitlen a - bitlen b"
  defines "k \<equiv> (if 2 powi d \<le> q then d else d - 1)"
  shows "2 powi k \<le> q" "q < 2 powi (k + 1)"
proof -
  have bpos: "(0::rat) < of_int b" using assms(2) by simp
  have lo: "2 powi (d - 1) < q"
  proof -
    have "d - 1 = (bitlen a - 1) - bitlen b" unfolding d_def by simp
    then have "2 powi (d - 1) = (2 powi (bitlen a - 1) :: rat) / 2 powi (bitlen b)"
      by (simp only: power_int_diff [of "2::rat", simplified])
    also have "\<dots> \<le> of_int a / 2 powi (bitlen b)"
      using bitlen_bounds_rat(1) [OF assms(1)] by (simp add: divide_right_mono)
    also have "\<dots> < of_int a / of_int b"
      using bitlen_bounds_rat(2) [OF assms(2)] assms(1) bpos
      by (intro divide_strict_left_mono) simp_all
    finally show ?thesis unfolding q_def .
  qed
  have hi: "q < 2 powi (d + 1)"
  proof -
    have "q < (2 powi (bitlen a) :: rat) / of_int b"
      unfolding q_def using bitlen_bounds_rat(2) [OF assms(1)] bpos
      by (simp add: divide_strict_right_mono)
    also have "\<dots> \<le> 2 powi (bitlen a) / 2 powi (bitlen b - 1)"
    proof (rule divide_left_mono)
      show "2 powi (bitlen b - 1) \<le> (of_int b :: rat)" by (rule bitlen_bounds_rat(1) [OF assms(2)])
      show "(0::rat) \<le> 2 powi bitlen a" by simp
      have "(0::rat) < 2 powi (bitlen b - 1)" by simp
      with bpos show "(0::rat) < of_int b * 2 powi (bitlen b - 1)" by (rule mult_pos_pos)
    qed
    also have "\<dots> = 2 powi (bitlen a - (bitlen b - 1))"
      by (simp only: power_int_diff [of "2::rat", simplified])
    also have "bitlen a - (bitlen b - 1) = d + 1" unfolding d_def by simp
    finally show ?thesis .
  qed
  show "2 powi k \<le> q" using lo unfolding k_def by auto
  show "q < 2 powi (k + 1)" using hi unfolding k_def by (auto simp: not_le)
qed

lemma true_div_pos:
  assumes "0 < a" "0 < b" "1 \<le> (of_int a / of_int b :: rat)"
  shows "\<exists>w. \<bar>w - of_int a / of_int b\<bar> \<le> (of_int a / of_int b) / 2 ^ 53
    \<and> ((of_int a / of_int b :: rat) < 2 powi 1023 \<longrightarrow> \<not> 2 powi 1024 \<le> w)
    \<and> true_div a b = (if 2 powi 1024 \<le> w then Inl OverflowError else Inr w)"
proof -
  define q where "q = (of_int a / of_int b :: rat)"
  define d where "d = bitlen a - bitlen b"
  define k where "k = (if 2 powi d \<le> q then d else d - 1)"
  define e where "e = max (k - 52) (- 1074)"
  define m where "m = round_half_even (q / 2 powi e)"
  define w where "w = of_int m * (2 powi e :: rat)"
  have kb: "2 powi k \<le> q" "q < 2 powi (k + 1)"
    using binade [OF assms(1,2)] unfolding q_def d_def k_def by simp_all
  have k0: "0 \<le> k"
  proof (rule ccontr)
    assume "\<not> 0 \<le> k"
    then have "(2 powi (k + 1) :: rat) \<le> 2 powi 0" by (intro power_int_increasing) simp_all
    with kb(2) assms(3) show False unfolding q_def by simp
  qed
  then have e: "e = k - 52" unfolding e_def by simp
  have pe: "(0::rat) < 2 powi e" by simp
  have "\<bar>of_int m - q / 2 powi e\<bar> \<le> 1 / 2" unfolding m_def by (rule round_half_even_bound)
  then have "\<bar>of_int m - q / 2 powi e\<bar> * 2 powi e \<le> 1 / 2 * 2 powi e"
    using pe by (intro mult_right_mono) simp_all
  moreover have "\<bar>of_int m - q / 2 powi e\<bar> * 2 powi e = \<bar>w - q\<bar>"
  proof -
    have "\<bar>of_int m - q / 2 powi e\<bar> * 2 powi e = \<bar>(of_int m - q / 2 powi e) * 2 powi e\<bar>"
      using pe by (simp add: abs_mult)
    also have "(of_int m - q / 2 powi e) * 2 powi e = w - q"
      unfolding w_def using pe by (simp add: algebra_simps)
    finally show ?thesis .
  qed
  moreover have "1 / 2 * (2 powi e :: rat) \<le> q / 2 ^ 53"
  proof -
    have "(2 powi e :: rat) = 2 powi k / 2 powi 52"
      unfolding e by (simp only: power_int_diff [of "2::rat", simplified])
    then have "(2 powi e :: rat) = 2 powi k / 2 ^ 52" by simp
    then have "1 / 2 * (2 powi e :: rat) = 2 powi k / 2 ^ 53" by simp
    also have "\<dots> \<le> q / 2 ^ 53" using kb(1) by (simp add: divide_right_mono)
    finally show ?thesis .
  qed
  ultimately have err: "\<bar>w - q\<bar> \<le> q / 2 ^ 53" by linarith
  have no: "\<not> 2 powi 1024 \<le> w" if lt: "q < 2 powi 1023"
  proof -
    have "w - q \<le> \<bar>w - q\<bar>" by simp
    with err have "w \<le> q + q / 2 ^ 53" by linarith
    also have "\<dots> < 2 powi 1023 + 2 powi 1023 / 2 ^ 53"
      using lt by (intro add_strict_mono divide_strict_right_mono) simp_all
    also have "\<dots> \<le> 2 powi 1024" by simp
    finally show ?thesis by simp
  qed
  have "a \<noteq> 0" "b \<noteq> 0" "\<bar>a\<bar> = a" "\<bar>b\<bar> = b" "(a < 0) = (b < 0)" using assms(1,2) by simp_all
  then have "true_div a b = (if 2 powi 1024 \<le> w then Inl OverflowError else Inr w)"
    unfolding true_div_def Let_def w_def m_def e_def k_def d_def q_def by simp
  with err no show ?thesis unfolding q_def by blast
qed

lemma true_div_200_error:
  assumes "250 \<le> n" "true_div n 200 = Inr w"
  shows "\<bar>w - of_int n / 200\<bar> \<le> of_int n / 200 / 2 ^ 53"
proof -
  have q: "1 \<le> (of_int n / of_int 200 :: rat)" using assms(1) by simp
  from true_div_pos [OF _ _ q] assms(1) obtain w' where
    w': "\<bar>w' - of_int n / of_int 200\<bar> \<le> (of_int n / of_int 200) / 2 ^ 53"
      "true_div n 200 = (if 2 powi 1024 \<le> w' then Inl OverflowError else Inr w')"
    by auto
  from w'(2) assms(2) have "w' = w" by (auto split: if_splits)
  with w'(1) show ?thesis by simp
qed

lemma true_div_200_returns:
  assumes "250 \<le> n" "n < 200 * 2 ^ 1023"
  shows "\<exists>w. true_div n 200 = Inr w"
proof -
  have q: "1 \<le> (of_int n / of_int 200 :: rat)" using assms(1) by simp
  have "(of_int n :: rat) < of_int (200 * 2 ^ 1023)" using assms(2) by (simp only: of_int_less_iff)
  then have lt: "(of_int n / of_int 200 :: rat) < 2 powi 1023" by simp
  from true_div_pos [OF _ _ q] assms(1) lt show ?thesis by auto
qed

lemma true_div_250: "true_div 250 200 = Inr (250 / 200)"
  by code_simp

lemma final_loop_result:
  assumes "distinct ks" "no_reverse ks"
    "\<forall>k \<in> set ks. fst k \<in> set (wnodes g) \<and> snd k \<in> set (wnodes g)"
    "\<forall>k \<in> set ks. k \<notin> fst ` set (wedges g) \<and> (snd k, fst k) \<notin> fst ` set (wedges g)"
    "final_loop d ks (g, il) = Inr res"
  shows "res =
     (g\<lparr>wedges := wedges g @ map (\<lambda>k. (k, weight_of d k)) (filter (kept d) ks)\<rparr>,
      il @ filter (important d) (filter (kept d) ks))
    \<and> (\<forall>k \<in> set ks. \<exists>n. map_of d k = Some n \<and> (250 \<le> n \<longrightarrow> (\<exists>w. true_div n 200 = Inr w)))"
  using assms
proof (induction ks arbitrary: g il)
  case Nil
  then show ?case by simp
next
  case (Cons k ks)
  have nr: "no_reverse ks" using Cons.prems(2) by (auto simp: no_reverse_def)
  have d: "distinct ks" "k \<notin> set ks" using Cons.prems(1) by simp_all
  have rev: "(snd k, fst k) \<notin> set ks"
  proof (cases "fst k = snd k")
    case True
    then have "(snd k, fst k) = k" by (cases k) simp
    with d(2) show ?thesis by simp
  next
    case False
    with Cons.prems(2) show ?thesis by (simp add: no_reverse_def)
  qed
  have rev': "(snd x, fst x) \<noteq> k" if "x \<in> set ks" for x
    using that rev by (cases x; cases k) auto
  from Cons.prems(5) obtain n where n: "map_of d k = Some n"
    by (auto split: option.splits)
  show ?case
  proof (cases "n < 250")
    case True
    with Cons.prems(5) n have l: "final_loop d ks (g, il) = Inr res" by simp
    have nk: "\<not> kept d k" using n True by (simp add: kept_def)
    from Cons.IH [OF d(1) nr _ _ l] Cons.prems(3,4)
    have "res =
      (g\<lparr>wedges := wedges g @ map (\<lambda>k. (k, weight_of d k)) (filter (kept d) ks)\<rparr>,
       il @ filter (important d) (filter (kept d) ks))
      \<and> (\<forall>k \<in> set ks. \<exists>n. map_of d k = Some n \<and> (250 \<le> n \<longrightarrow> (\<exists>w. true_div n 200 = Inr w)))"
      by simp
    with nk n True show ?thesis by simp
  next
    case False
    with Cons.prems(5) n obtain w where w: "true_div n 200 = Inr w"
      by (auto split: sum.splits)
    let ?g = "g\<lparr>wedges := wedges g @ [((fst k, snd k), w)]\<rparr>"
    let ?il = "if n > 500 then il @ [k] else il"
    have a: "add_weighted_edge g (fst k) (snd k) w = ?g"
      using Cons.prems(3,4) by (intro add_weighted_edge_fresh) simp_all
    have l: "final_loop d ks (?g, ?il) = Inr res"
      using Cons.prems(5) n False w a by simp
    have kk: "kept d k" "weight_of d k = w" "important d k \<longleftrightarrow> 500 < n"
      using n False w by (simp_all add: kept_def weight_of_def important_def)
    have fresh: "\<forall>x \<in> set ks. x \<notin> fst ` set (wedges ?g) \<and> (snd x, fst x) \<notin> fst ` set (wedges ?g)"
    proof
      fix x assume x: "x \<in> set ks"
      with d(2) have "x \<noteq> k" by auto
      moreover have "(snd x, fst x) \<noteq> k" using x by (rule rev')
      ultimately show "x \<notin> fst ` set (wedges ?g) \<and> (snd x, fst x) \<notin> fst ` set (wedges ?g)"
        using Cons.prems(4) x by auto
    qed
    have nodes': "\<forall>k \<in> set ks. fst k \<in> set (wnodes ?g) \<and> snd k \<in> set (wnodes ?g)"
      using Cons.prems(3) by simp
    from Cons.IH [OF d(1) nr nodes' fresh l]
    have "res =
      (?g\<lparr>wedges := wedges ?g @ map (\<lambda>k. (k, weight_of d k)) (filter (kept d) ks)\<rparr>,
       ?il @ filter (important d) (filter (kept d) ks))
      \<and> (\<forall>k \<in> set ks. \<exists>n. map_of d k = Some n \<and> (250 \<le> n \<longrightarrow> (\<exists>w. true_div n 200 = Inr w)))"
      .
    with kk n w show ?thesis by simp
  qed
qed

lemma final_loop_returns:
  assumes "\<forall>k \<in> set ks. \<exists>n. map_of d k = Some n \<and> (250 \<le> n \<longrightarrow> (\<exists>w. true_div n 200 = Inr w))"
  shows "\<exists>res. final_loop d ks s = Inr res"
  using assms
proof (induction ks arbitrary: s)
  case Nil
  then show ?case by simp
next
  case (Cons k ks)
  obtain g il where s: "s = (g, il)" by (cases s)
  from Cons.prems obtain n where n: "map_of d k = Some n"
    "250 \<le> n \<longrightarrow> (\<exists>w. true_div n 200 = Inr w)" by auto
  have ih: "\<exists>res. final_loop d ks s' = Inr res" for s'
    using Cons.prems by (intro Cons.IH) simp
  show ?case
  proof (cases "n < 250")
    case True
    with n ih [of "(g, il)"] show ?thesis by (simp add: s)
  next
    case False
    with n(2) obtain w where w: "true_div n 200 = Inr w" by auto
    from ih [of "(add_weighted_edge g (fst k) (snd k) w, if n > 500 then il @ [k] else il)"]
    show ?thesis using n(1) False w by (simp add: s)
  qed
qed

lemma final_graph_eq:
  assumes "map fst d = allpairs nodes" "final_graph d = Inr res"
  shows "res =
     (\<lparr>wnodes = nodes, wedges = map (\<lambda>k. (k, weight_of d k)) (filter (kept d) (map fst d))\<rparr>,
      filter (important d) (filter (kept d) (map fst d)))"
    and "\<forall>k \<in> set (map fst d). \<exists>n. map_of d k = Some n \<and> (250 \<le> n \<longrightarrow> (\<exists>w. true_div n 200 = Inr w))"
proof -
  let ?g = "\<lparr>wnodes = nodes, wedges = []\<rparr>"
  have w: "distinct (map fst d)" "no_reverse (map fst d)"
    using allpairs_wf [OF nodes_distinct] assms(1) by simp_all
  have n: "\<forall>k \<in> set (map fst d). fst k \<in> set (wnodes ?g) \<and> snd k \<in> set (wnodes ?g)"
    unfolding assms(1) using allpairs_subset [of _ _ nodes] by auto
  have f: "\<forall>k \<in> set (map fst d). k \<notin> fst ` set (wedges ?g) \<and> (snd k, fst k) \<notin> fst ` set (wedges ?g)"
    by simp
  have l: "final_loop d (map fst d) (?g, []) = Inr res"
    using assms(2) by (simp add: final_graph_def add_nodes_from_nodes)
  from final_loop_result [OF w n f l]
  show "res =
     (\<lparr>wnodes = nodes, wedges = map (\<lambda>k. (k, weight_of d k)) (filter (kept d) (map fst d))\<rparr>,
      filter (important d) (filter (kept d) (map fst d)))"
    and "\<forall>k \<in> set (map fst d). \<exists>n. map_of d k = Some n \<and> (250 \<le> n \<longrightarrow> (\<exists>w. true_div n 200 = Inr w))"
    by simp_all
qed

lemma final_graph_returns:
  assumes "\<forall>k n. map_of d k = Some n \<longrightarrow> n < 200 * 2 ^ 1023"
  shows "\<exists>res. final_graph d = Inr res"
  unfolding final_graph_def
proof (rule final_loop_returns, rule ballI)
  fix k assume "k \<in> set (map fst d)"
  then have "map_of d k \<noteq> None" by (simp add: map_of_eq_None_iff)
  then obtain n where n: "map_of d k = Some n" by auto
  with assms have "n < 200 * 2 ^ 1023" by blast
  then have "250 \<le> n \<longrightarrow> (\<exists>w. true_div n 200 = Inr w)" using true_div_200_returns by blast
  with n show "\<exists>n. map_of d k = Some n \<and> (250 \<le> n \<longrightarrow> (\<exists>w. true_div n 200 = Inr w))" by blast
qed

lemma map_of_graph: "map_of (map (\<lambda>k. (k, f k)) xs) k = (if k \<in> set xs then Some (f k) else None)"
  by (induction xs) auto

lemma choices_exhausted: "choices [] languages k = Inr (replicate k ''Rapanui'', [])"
  by (induction k) (simp_all add: randbelow_def languages_def)

lemma greedy_loop_nothing_to_do:
  "greedy_loop [] r (loop_entry [] me) = Inr (loop_entry [] me, r)"
  by (simp add: greedy_loop.simps loop_entry_def initial_graph_def C_def)

lemma bootstrap_round_empty_file:
  assumes "fs (argv ! 1) = Some []" "\<not> length argv < 2" "gen gl = []"
  shows "bootstrap_round argv fs gl = Inr gl"
proof -
  have "edges_view (G (loop_entry [] (last_edge gl))) = []"
    by (simp add: loop_entry_def initial_graph_def edges_view_def empty_graph_def)
  moreover have "max_edge (loop_entry [] (last_edge gl)) = last_edge gl"
    by (simp add: loop_entry_def initial_graph_def)
  moreover have "read_data L [] = Inr []" for L by (simp add: read_data_def)
  ultimately show ?thesis
    using assms by (simp add: bootstrap_round_alt choices_exhausted greedy_loop_nothing_to_do)
qed

lemma bootstrap_empty_file:
  assumes "fs (argv ! 1) = Some []" "\<not> length argv < 2" "gen gl = []"
  shows "bootstrap n argv fs gl = Inr gl"
proof (induction n)
  case 0
  then show ?case by simp
next
  case (Suc n)
  have "bootstrap_round argv fs gl = Inr gl"
    using assms by (rule bootstrap_round_empty_file [where fs = fs and argv = argv and gl = gl])
  with Suc show ?case by simp
qed

lemma bootstrap_first_round_fails:
  assumes "bootstrap_round argv fs gl = Inl err" "0 < n"
  shows "bootstrap n argv fs gl = Inl err"
  using assms by (cases n) simp_all

lemma bootstrap_round_no_argument:
  "length argv < 2 \<Longrightarrow> bootstrap_round argv fs \<lparr>gen = [], dict = d, last_edge = me\<rparr> = Inl IndexError"
  by (simp add: bootstrap_round_alt choices_exhausted)

lemma final_graph_no_counts:
  "final_graph edges_dictionary = Inr (\<lparr>wnodes = nodes, wedges = []\<rparr>, [])"
proof -
  have k: "map fst edges_dictionary = allpairs nodes"
    by (simp add: edges_dictionary_def comp_def)
  have "n < 200 * 2 ^ 1023" if "map_of edges_dictionary k = Some n" for k n
    using edges_dictionary_zero [OF that] by simp
  then obtain res where r: "final_graph edges_dictionary = Inr res"
    using final_graph_returns [of edges_dictionary] by blast
  have "\<not> kept edges_dictionary k" for k
    using edges_dictionary_zero [of k] by (auto simp: kept_def split: option.splits)
  then have "filter (kept edges_dictionary) ks = []" for ks by (simp add: filter_empty_conv)
  with final_graph_eq(1) [OF k r] r show ?thesis by simp
qed

lemma randbelow_rest: "snd (randbelow r n) = drop 1 r"
  by (cases r) (simp_all add: randbelow_def)

lemma shuffle_from_rest: "snd (shuffle_from i r xs) = drop i r"
proof (induction i arbitrary: r xs)
  case 0
  then show ?case by simp
next
  case (Suc i)
  obtain j r1 where rb: "randbelow r (Suc i + 1) = (j, r1)" by (cases "randbelow r (Suc i + 1)")
  then have "r1 = drop 1 r" using randbelow_rest [of r "Suc i + 1"] by simp
  then show ?case using rb Suc.IH [of r1] by (simp add: drop_Suc)
qed

lemma shuffle_rest: "snd (shuffle r xs) = drop (length xs - 1) r"
  by (simp add: shuffle_def shuffle_from_rest)

lemma shuffle_from_append:
  "i < length zs \<Longrightarrow> fst (shuffle_from i r (zs @ ws)) = fst (shuffle_from i r zs) @ ws"
proof (induction i arbitrary: r zs)
  case 0
  then show ?case by simp
next
  case (Suc i)
  obtain j r1 where rb: "randbelow r (Suc i + 1) = (j, r1)" by (cases "randbelow r (Suc i + 1)")
  have "fst (randbelow r (Suc i + 1)) < Suc i + 1" by (rule randbelow_less) simp
  with rb Suc.prems have j: "j < length zs" by simp
  have "(zs @ ws)[Suc i := (zs @ ws) ! j, j := (zs @ ws) ! Suc i]
      = zs[Suc i := zs ! j, j := zs ! Suc i] @ ws"
    using j Suc.prems by (simp add: list_update_append nth_append)
  moreover have "i < length (zs[Suc i := zs ! j, j := zs ! Suc i])" using Suc.prems by simp
  ultimately show ?case using rb Suc.IH [of "zs[Suc i := zs ! j, j := zs ! Suc i]" r1] by simp
qed

lemma shuffle_from_any_order:
  assumes "length xs = Suc i" "mset ys = mset xs"
  shows "\<exists>r. fst (shuffle_from i r xs) = ys"
  using assms
proof (induction i arbitrary: xs ys)
  case 0
  then obtain x where x: "xs = [x]" by (cases xs) auto
  with "0.prems"(2) have "ys = [x]" by (metis mset_single_iff_right mset.simps(1) mset.simps(2))
  with x show ?case by simp
next
  case (Suc i)
  have lys: "length ys = Suc (Suc i)" using Suc.prems by (metis mset_eq_length)
  then obtain ys' y where ys: "ys = ys' @ [y]" by (cases ys rule: rev_cases) auto
  have "y \<in> set xs" using Suc.prems(2) ys by (metis in_set_conv_decomp mset_eq_setD)
  then obtain j where j: "j < length xs" "xs ! j = y" by (auto simp: in_set_conv_nth)
  let ?xs1 = "xs[Suc i := xs ! j, j := xs ! Suc i]"
  have l1: "length ?xs1 = Suc (Suc i)" using Suc.prems(1) by simp
  have m1: "mset ?xs1 = mset xs" using j(1) Suc.prems(1) by (simp add: mset_swap)
  have last1: "?xs1 ! Suc i = y"
  proof (cases "j = Suc i")
    case True
    with j(2) show ?thesis using Suc.prems(1) by simp
  next
    case False
    with j show ?thesis using Suc.prems(1) by simp
  qed
  define zs where "zs = take (Suc i) ?xs1"
  have x1: "?xs1 = zs @ [y]"
    unfolding zs_def using l1 last1 by (metis lessI take_Suc_conv_app_nth take_all order_refl)
  have lz: "length zs = Suc i" unfolding zs_def using l1 by simp
  have "mset zs + {#y#} = mset ys' + {#y#}" using m1 Suc.prems(2) unfolding x1 ys by simp
  then have mz: "mset ys' = mset zs" by simp
  from Suc.IH [OF lz mz] obtain r' where r': "fst (shuffle_from i r' zs) = ys'" by blast
  have "i < length zs" using lz by simp
  from shuffle_from_append [OF this, of r' "[y]"] r'
  have tail: "fst (shuffle_from i r' (zs @ [y])) = ys" by (simp add: ys)
  have jlt: "j < Suc i + 1 + 0" using j(1) Suc.prems(1) by simp
  then have "randbelow (j # r') (Suc i + 1) = (j, r')" by (simp add: randbelow_def)
  then have "fst (shuffle_from (Suc i) (j # r') xs) = fst (shuffle_from i r' ?xs1)" by simp
  with tail x1 show ?case by metis
qed

lemma shuffle_any_order:
  assumes "mset ys = mset xs"
  shows "\<exists>r. fst (shuffle r xs) = ys"
proof (cases xs)
  case Nil
  with assms show ?thesis by (simp add: shuffle_def)
next
  case (Cons x xs')
  then have "length xs = Suc (length xs - 1)" by simp
  from shuffle_from_any_order [OF this assms] show ?thesis by (simp add: shuffle_def)
qed

lemma greedy_step_commits:
  assumes "reachable T st" "objfn st < 0"
  shows "\<exists>P r' pre e post st'.
     shuffle r (PossE st) = (P, r') \<and> mset P = mset (PossE st)
     \<and> r' = drop (length (PossE st) - 1) r \<and> P = pre @ e # post
     \<and> 0 < gain T st e
     \<and> (\<forall>x \<in> set pre. gain T st x < gain T st e)
     \<and> (\<forall>x \<in> set post. gain T st x \<le> gain T st e)
     \<and> greedy_step T r st = Inr (st', r')
     \<and> G st' = add_edge (G st) e \<and> gedges (G st') = gedges (G st) @ [e]
     \<and> gnodes (G st') = gnodes (G st)
     \<and> PossE st' = pre @ post \<and> e \<notin> set (PossE st') \<and> (snd e, fst e) \<notin> set (PossE st')
     \<and> (\<forall>st''. steps T st' st'' \<longrightarrow>
           set (PossE st'') \<subseteq> set (PossE st') \<and> e \<notin> set (PossE st'')
           \<and> (snd e, fst e) \<notin> set (PossE st''))"
proof -
  have i: "loop_inv T st" using assms(1) by (rule reachable_inv)
  obtain P r' where sh: "shuffle r (PossE st) = (P, r')" by (cases "shuffle r (PossE st)")
  let ?st' = "\<lambda>e pre post. \<lparr>G = add_edge (G st) e, PossE = pre @ post, max_edge = Some e,
                    objfn = C (add_edge (G st) e) (add_edge (G st) e) T\<rparr>"
  from greedy_step_chosen [OF i assms(2) sh] obtain pre e post where
    c: "P = pre @ e # post" "0 < gain T st e" "\<forall>x \<in> set pre. gain T st x < gain T st e"
      "\<forall>x \<in> set post. gain T st x \<le> gain T st e" "e \<notin> set pre" "e \<notin> set post"
      "greedy_step T r st = Inr (?st' e pre post, r')"
    by blast
  have setP: "set P = set (PossE st)" using sh by (rule shuffle_set)
  then have ein: "e \<in> set (PossE st)" using c(1) by auto
  have "add_edge (G st) (fst e, snd e) = (G st)\<lparr>gedges := gedges (G st) @ [(fst e, snd e)]\<rparr>"
    using candidate_fresh [OF i ein] by (rule add_edge_fresh)
  then have add: "add_edge (G st) e = (G st)\<lparr>gedges := gedges (G st) @ [e]\<rparr>" by simp
  have rev: "(snd e, fst e) \<notin> set (pre @ post)"
  proof (cases "fst e = snd e")
    case True
    then have "(snd e, fst e) = e" by (cases e) simp
    with c(5,6) show ?thesis by simp
  next
    case False
    have "candidates_ok (G st) (PossE st)" using i by (simp add: loop_inv_def)
    with ein False have "(snd e, fst e) \<notin> set (PossE st)" unfolding candidates_ok_def by blast
    with setP c(1) show ?thesis by auto
  qed
  have later: "set (PossE st'') \<subseteq> set (PossE (?st' e pre post)) \<and> e \<notin> set (PossE st'')
      \<and> (snd e, fst e) \<notin> set (PossE st'')" if "steps T (?st' e pre post) st''" for st''
    using steps_PossE [OF that] c(5,6) rev by auto
  have rest: "r' = drop (length (PossE st) - 1) r"
    using shuffle_rest [of r "PossE st"] sh by simp
  have "shuffle r (PossE st) = (P, r') \<and> mset P = mset (PossE st)
     \<and> r' = drop (length (PossE st) - 1) r \<and> P = pre @ e # post
     \<and> 0 < gain T st e
     \<and> (\<forall>x \<in> set pre. gain T st x < gain T st e)
     \<and> (\<forall>x \<in> set post. gain T st x \<le> gain T st e)
     \<and> greedy_step T r st = Inr (?st' e pre post, r')
     \<and> G (?st' e pre post) = add_edge (G st) e
     \<and> gedges (G (?st' e pre post)) = gedges (G st) @ [e]
     \<and> gnodes (G (?st' e pre post)) = gnodes (G st)
     \<and> PossE (?st' e pre post) = pre @ post \<and> e \<notin> set (PossE (?st' e pre post))
     \<and> (snd e, fst e) \<notin> set (PossE (?st' e pre post))
     \<and> (\<forall>st''. steps T (?st' e pre post) st'' \<longrightarrow>
           set (PossE st'') \<subseteq> set (PossE (?st' e pre post)) \<and> e \<notin> set (PossE st'')
           \<and> (snd e, fst e) \<notin> set (PossE st''))"
    using sh shuffle_mset [OF sh] rest c rev later by (simp add: add)
  then show ?thesis by blast
qed

lemma greedy_step_first_best:
  assumes "reachable T st" "objfn st < 0" "x \<in> set (PossE st)"
    "\<forall>y \<in> set (PossE st). gain T st y \<le> gain T st x"
  shows "\<exists>r0 st0 r1. greedy_step T r0 st = Inr (st0, r1) \<and> max_edge st0 = Some x
            \<and> G st0 = add_edge (G st) x"
proof -
  have i: "loop_inv T st" using assms(1) by (rule reachable_inv)
  let ?Q = "x # remove1 x (PossE st)"
  have "mset ?Q = mset (PossE st)" using assms(3) by simp
  from shuffle_any_order [OF this] obtain r0 where "fst (shuffle r0 (PossE st)) = ?Q" by blast
  then obtain r1 where sh: "shuffle r0 (PossE st) = (?Q, r1)"
    by (cases "shuffle r0 (PossE st)") simp
  from greedy_step_chosen [OF i assms(2) sh] obtain pre e post where
    c: "?Q = pre @ e # post" "\<forall>y \<in> set pre. gain T st y < gain T st e"
      "greedy_step T r0 st =
         Inr (\<lparr>G = add_edge (G st) e, PossE = pre @ post, max_edge = Some e,
               objfn = C (add_edge (G st) e) (add_edge (G st) e) T\<rparr>, r1)"
    by blast
  have "set ?Q = set (PossE st)" using sh by (rule shuffle_set)
  moreover have "e \<in> set ?Q" unfolding c(1) by simp
  ultimately have "e \<in> set (PossE st)" by blast
  with assms(4) have le: "gain T st e \<le> gain T st x" by blast
  have "pre = []"
  proof (rule ccontr)
    assume "pre \<noteq> []"
    with c(1) have "x \<in> set pre" by (cases pre) auto
    with c(2) le show False by force
  qed
  with c(1) have "e = x" by simp
  let ?st0 = "\<lparr>G = add_edge (G st) x, PossE = pre @ post, max_edge = Some x,
               objfn = C (add_edge (G st) x) (add_edge (G st) x) T\<rparr>"
  have "greedy_step T r0 st = Inr (?st0, r1)" using c(3) \<open>e = x\<close> by simp
  moreover have "max_edge ?st0 = Some x" by simp
  moreover have "G ?st0 = add_edge (G st) x" by simp
  ultimately show ?thesis by blast
qed

lemma joins_Nil: "joins es [] = []"
  by (induction es) (simp_all add: join_def)

lemma C_observation_without_node:
  assumes "\<forall>n \<in> set c. \<not> has_node gr n"
  shows "C gr g [c] = 1"
proof -
  have "gnodes (subgraph gr c) = []"
    using assms by (auto simp: subgraph_def has_node_def filter_empty_conv)
  then have "number_connected_components (subgraph gr c) = 0"
    by (simp add: number_connected_components_def connected_components_def joins_Nil)
  then show ?thesis by (simp add: C_def)
qed

lemma read_data_short_line:
  "read_data [''Lezgian''] [''Lezgian'' @ [CHR 0x09] @ ''liking'' @ [CHR 0x0A]] = Inl IndexError"
  by code_simp

section \<open>The claims\<close>

text \<open>
  Claim C1, as the code has it. For every graph and every list of observations each of
  which names at least one node of the graph, the value of \<open>C\<close> is at most 0, and it is
  0 exactly when the concepts of every observation induce one connected component. In a
  graph without repeated nodes, an observation with a single concept adds 0.
\<close>

theorem C_nonpositive:
  assumes "\<forall>c \<in> set s. \<exists>n \<in> set c. has_node gr n"
  shows "C gr g s \<le> 0
    \<and> (C gr g s = 0 \<longleftrightarrow> (\<forall>c \<in> set s. number_connected_components (subgraph gr c) = 1))
    \<and> (distinct (gnodes gr) \<longrightarrow>
          (\<forall>c \<in> set s. (\<exists>n. set c = {n}) \<longrightarrow>
             1 - int (number_connected_components (subgraph gr c)) = 0))"
proof -
  have "1 - int (number_connected_components (subgraph gr c)) = 0"
    if d: "distinct (gnodes gr)" and c: "c \<in> set s" and n: "set c = {n}" for c n
  proof -
    from assms c n have "has_node gr n" by auto
    from ncc_single_concept [OF d n this] show ?thesis by simp
  qed
  with C_bounds [OF assms] show ?thesis by blast
qed

theorem C_nonpositive_witness:
  "C \<lparr>gnodes = [''X'', ''Y'', ''Z''], gedges = [(''X'', ''Y'')]\<rparr> empty_graph
     [[''X'', ''Y''], [''Z'']] \<le> 0"
proof -
  have h: "\<forall>c \<in> set [[''X'', ''Y''], [''Z'']].
      \<exists>n \<in> set c. has_node \<lparr>gnodes = [''X'', ''Y'', ''Z''], gedges = [(''X'', ''Y'')]\<rparr> n"
    by (simp add: has_node_def)
  from C_nonpositive [OF h, of empty_graph] show ?thesis by blast
qed

text \<open>
  Claim C1, as stated, fails on an observation without concepts: the subgraph it induces
  has no node and no component, so the observation adds 1 to the total.
\<close>

theorem C_empty_observation_counterexample:
  "\<not> (C empty_graph empty_graph [[]] \<le> 0)"
  by (simp add: C_def number_connected_components_def connected_components_def
      subgraph_def empty_graph_def)

text \<open>
  Claim C10. The result of \<open>C\<close> does not depend on the graph passed as its first
  parameter: for all graphs \<open>g1\<close> and \<open>g2\<close> and every constraint list, the two calls
  agree, the value being computed on the module-level graph.
\<close>

theorem C_ignores_parameter: "C gr g1 s = C gr g2 s"
  by (simp add: C_def)

theorem C_ignores_parameter_witness:
  "C \<lparr>gnodes = [''X'', ''Y''], gedges = []\<rparr> empty_graph [[''X'', ''Y'']]
     = C \<lparr>gnodes = [''X'', ''Y''], gedges = []\<rparr>
         \<lparr>gnodes = [''X'', ''Y''], gedges = [(''X'', ''Y'')]\<rparr> [[''X'', ''Y'']]"
  by (rule C_ignores_parameter)

text \<open>
  Claim C7. In every state a round can be in at the head of the loop, adding a candidate
  and removing it again gives back the very graph (same nodes, same edges, same order),
  and so does the whole \<^verbatim>\<open>for\<close> loop over any candidates of the pool: the graph it ends
  with is the graph it started from.
\<close>

theorem candidate_evaluation_restores_graph:
  assumes "reachable T st"
  shows "(\<forall>e \<in> set (PossE st). remove_edge (add_edge (G st) e) e = Inr (G st))
     \<and> (\<forall>es ms me. set es \<subseteq> set (PossE st) \<longrightarrow>
          (\<exists>ms' me'. try_edges T (objfn st) es (G st, ms, me) = Inr (G st, ms', me')))"
proof (intro conjI ballI allI impI)
  have i: "loop_inv T st" using assms by (rule reachable_inv)
  show "remove_edge (add_edge (G st) e) e = Inr (G st)" if "e \<in> set (PossE st)" for e
  proof -
    have "remove_edge (add_edge (G st) (fst e, snd e)) (fst e, snd e) = Inr (G st)"
      using candidate_fresh [OF i that] by (rule remove_added_edge)
    then show ?thesis by simp
  qed
  show "\<exists>ms' me'. try_edges T (objfn st) es (G st, ms, me) = Inr (G st, ms', me')"
    if "set es \<subseteq> set (PossE st)" for es ms me
  proof -
    have ok: "\<forall>e \<in> set es. fst e \<in> set (gnodes (G st)) \<and> snd e \<in> set (gnodes (G st))
        \<and> \<not> has_edge (G st) (fst e) (snd e)"
    proof
      fix e assume "e \<in> set es"
      with that have "e \<in> set (PossE st)" by blast
      from candidate_fresh [OF i this]
      show "fst e \<in> set (gnodes (G st)) \<and> snd e \<in> set (gnodes (G st))
        \<and> \<not> has_edge (G st) (fst e) (snd e)" by simp
    qed
    let ?f = "\<lambda>e. C (add_edge (G st) e) (add_edge (G st) e) T - objfn st"
    obtain ms' me' where b: "best ?f es (ms, me) = (ms', me')"
      by (cases "best ?f es (ms, me)")
    have "try_edges T (objfn st) es (G st, ms, me) = Inr (G st, ms', me')"
      using try_edges_best [OF ok, of T "objfn st" ms me] b by simp
    then show ?thesis by blast
  qed
qed

theorem candidate_evaluation_restores_graph_witness:
  "remove_edge (add_edge \<lparr>gnodes = [''X'', ''Y'', ''Z''], gedges = []\<rparr> (''X'', ''Y''))
       (''X'', ''Y'')
     = Inr \<lparr>gnodes = [''X'', ''Y'', ''Z''], gedges = []\<rparr>"
proof -
  let ?T = "[[''X'', ''Y''], [''Y'', ''Z'']]"
  have "steps ?T (loop_entry ?T None) (loop_entry ?T None)" by (rule steps_refl)
  then have r: "reachable ?T (loop_entry ?T None)" unfolding reachable_def by blast
  have m: "(''X'', ''Y'') \<in> set (PossE (loop_entry ?T None))"
    by (simp add: loop_entry_example)
  from candidate_evaluation_restores_graph [OF r] m
  have "remove_edge (add_edge (G (loop_entry ?T None)) (''X'', ''Y'')) (''X'', ''Y'')
      = Inr (G (loop_entry ?T None))" by blast
  then show ?thesis by (simp add: loop_entry_example)
qed

text \<open>
  Claim C2. In every round of the greedy loop taken while the objective is negative, the
  whole pool is shuffled: the shuffle takes one draw for every position but the first,
  the list \<open>P\<close> it leaves is a permutation of the pool, and every order of the pool is
  left by it for some supply of draws. The edge \<open>e\<close> that is committed has a positive
  gain, a gain strictly larger than every candidate evaluated before it and at least as
  large as every candidate evaluated after it, so that among candidates of equal gain
  the order after the shuffle decides: every candidate of largest gain is the one
  committed for some supply. The edge is appended to the graph and taken out of the
  pool, and no later state of the round has it in its pool again, in either orientation;
  the pools of later states only shrink.
\<close>

theorem greedy_step_commits_best:
  assumes "reachable T st" "objfn st < 0"
  shows "(\<exists>P r' pre e post st'.
     shuffle r (PossE st) = (P, r') \<and> mset P = mset (PossE st)
     \<and> r' = drop (length (PossE st) - 1) r \<and> P = pre @ e # post
     \<and> 0 < gain T st e
     \<and> (\<forall>x \<in> set pre. gain T st x < gain T st e)
     \<and> (\<forall>x \<in> set post. gain T st x \<le> gain T st e)
     \<and> greedy_step T r st = Inr (st', r')
     \<and> G st' = add_edge (G st) e \<and> gedges (G st') = gedges (G st) @ [e]
     \<and> gnodes (G st') = gnodes (G st)
     \<and> PossE st' = pre @ post \<and> e \<notin> set (PossE st') \<and> (snd e, fst e) \<notin> set (PossE st')
     \<and> (\<forall>st''. steps T st' st'' \<longrightarrow>
           set (PossE st'') \<subseteq> set (PossE st') \<and> e \<notin> set (PossE st'')
           \<and> (snd e, fst e) \<notin> set (PossE st'')))
   \<and> (\<forall>Q. mset Q = mset (PossE st) \<longrightarrow> (\<exists>r0. fst (shuffle r0 (PossE st)) = Q))
   \<and> (\<forall>x \<in> set (PossE st). (\<forall>y \<in> set (PossE st). gain T st y \<le> gain T st x) \<longrightarrow>
         (\<exists>r0 st0 r1. greedy_step T r0 st = Inr (st0, r1) \<and> max_edge st0 = Some x
            \<and> G st0 = add_edge (G st) x))"
proof (intro conjI allI impI ballI)
  show "\<exists>P r' pre e post st'.
     shuffle r (PossE st) = (P, r') \<and> mset P = mset (PossE st)
     \<and> r' = drop (length (PossE st) - 1) r \<and> P = pre @ e # post
     \<and> 0 < gain T st e
     \<and> (\<forall>x \<in> set pre. gain T st x < gain T st e)
     \<and> (\<forall>x \<in> set post. gain T st x \<le> gain T st e)
     \<and> greedy_step T r st = Inr (st', r')
     \<and> G st' = add_edge (G st) e \<and> gedges (G st') = gedges (G st) @ [e]
     \<and> gnodes (G st') = gnodes (G st)
     \<and> PossE st' = pre @ post \<and> e \<notin> set (PossE st') \<and> (snd e, fst e) \<notin> set (PossE st')
     \<and> (\<forall>st''. steps T st' st'' \<longrightarrow>
           set (PossE st'') \<subseteq> set (PossE st') \<and> e \<notin> set (PossE st'')
           \<and> (snd e, fst e) \<notin> set (PossE st''))"
    using assms by (rule greedy_step_commits)
  show "\<exists>r0. fst (shuffle r0 (PossE st)) = Q" if "mset Q = mset (PossE st)" for Q
    using that by (rule shuffle_any_order)
  show "\<exists>r0 st0 r1. greedy_step T r0 st = Inr (st0, r1) \<and> max_edge st0 = Some x
            \<and> G st0 = add_edge (G st) x"
    if "x \<in> set (PossE st)" "\<forall>y \<in> set (PossE st). gain T st y \<le> gain T st x" for x
    using assms that by (rule greedy_step_first_best)
qed

theorem greedy_step_commits_best_witness:
  "\<exists>e st' r'. greedy_step [[''X'', ''Y''], [''Y'', ''Z'']] []
        (loop_entry [[''X'', ''Y''], [''Y'', ''Z'']] None) = Inr (st', r')
     \<and> G st' = add_edge (G (loop_entry [[''X'', ''Y''], [''Y'', ''Z'']] None)) e
     \<and> e \<notin> set (PossE st')"
proof -
  let ?T = "[[''X'', ''Y''], [''Y'', ''Z'']]"
  have "steps ?T (loop_entry ?T None) (loop_entry ?T None)" by (rule steps_refl)
  then have r: "reachable ?T (loop_entry ?T None)" unfolding reachable_def by blast
  have n: "objfn (loop_entry ?T None) < 0" by (simp add: loop_entry_example)
  from greedy_step_commits_best [OF r n, of "[]"] show ?thesis by blast
qed



text \<open>
  Claim C4, as the code has it. An edge that is a key of the dictionary in the orientation
  in which the graph reports it adds exactly 1 to that entry; otherwise the reversed pair
  is looked up without a guard: it adds exactly 1 to that entry when the reversed pair is
  a key, and raises \<^verbatim>\<open>KeyError\<close> when it is not. No other entry and no key changes, and
  one edge that is a key in neither orientation makes the whole count raise.
\<close>

theorem count_edge_cases:
  "(map_of d e = Some n \<longrightarrow>
      (\<exists>d'. count_edge e d = Inr d' \<and> map_of d' = (map_of d)(e \<mapsto> n + 1)
         \<and> map fst d' = map fst d))
   \<and> (map_of d e = None \<and> map_of d (snd e, fst e) = Some n \<longrightarrow>
      (\<exists>d'. count_edge e d = Inr d' \<and> map_of d' = (map_of d)((snd e, fst e) \<mapsto> n + 1)
         \<and> map fst d' = map fst d))
   \<and> (map_of d e = None \<and> map_of d (snd e, fst e) = None \<longrightarrow> count_edge e d = Inl KeyError)
   \<and> ((\<exists>x \<in> set es. map_of d x = None \<and> map_of d (snd x, fst x) = None) \<longrightarrow>
        count_edges es d = Inl KeyError)"
proof (intro conjI impI)
  show "\<exists>d'. count_edge e d = Inr d' \<and> map_of d' = (map_of d)(e \<mapsto> n + 1)
         \<and> map fst d' = map fst d" if h: "map_of d e = Some n"
  proof -
    from h have c: "count_edge e d = Inr (AList.update e (n + 1) d)"
      by (simp add: count_edge_def increment_def)
    then have "increment (key_of d e) d = Inr (AList.update e (n + 1) d)"
      by (simp add: count_edge_key_of)
    from increment_keys [OF this] c show ?thesis by (simp add: update_conv')
  qed
  show "\<exists>d'. count_edge e d = Inr d' \<and> map_of d' = (map_of d)((snd e, fst e) \<mapsto> n + 1)
         \<and> map fst d' = map fst d"
    if h: "map_of d e = None \<and> map_of d (snd e, fst e) = Some n"
  proof -
    from h have c: "count_edge e d = Inr (AList.update (snd e, fst e) (n + 1) d)"
      by (simp add: count_edge_def increment_def)
    then have "increment (key_of d e) d = Inr (AList.update (snd e, fst e) (n + 1) d)"
      by (simp add: count_edge_key_of)
    from increment_keys [OF this] c show ?thesis by (simp add: update_conv')
  qed
  show "count_edge e d = Inl KeyError"
    if "map_of d e = None \<and> map_of d (snd e, fst e) = None"
    using that by (simp add: count_edge_def increment_def)
  show "count_edges es d = Inl KeyError"
    if "\<exists>x \<in> set es. map_of d x = None \<and> map_of d (snd x, fst x) = None"
    using that count_edges_KeyError by blast
qed

theorem count_edge_cases_witness:
  "\<exists>d'. count_edge (''ANGER'', ''LOVE'') edges_dictionary = Inr d'
      \<and> map_of d' (''LOVE'', ''ANGER'') = Some 1"
proof -
  have h: "map_of edges_dictionary (''ANGER'', ''LOVE'') = None
      \<and> map_of edges_dictionary (snd (''ANGER'', ''LOVE''), fst (''ANGER'', ''LOVE'')) = Some 0"
    by code_simp
  from count_edge_cases [of edges_dictionary "(''ANGER'', ''LOVE'')" 0 "[]"] h
  show ?thesis by auto
qed

text \<open>
  Claim C4, as stated, fails on a file with a sense outside the twelve nodes: the round
  ends in the unguarded lookup of the reversed pair, with \<^verbatim>\<open>KeyError\<close>.
\<close>

theorem out_of_vocabulary_counterexample:
  "bootstrap_round [''regier-adapted.py'', ''sets.tsv'']
     [''sets.tsv'' \<mapsto>
        [''Lezgian'' @ [CHR 0x09] @ ''liking'' @ [CHR 0x09] @ ''{LOVE, JOY}'' @ [CHR 0x0A]]]
     \<lparr>gen = [1], dict = edges_dictionary, last_edge = None\<rparr> = Inl KeyError"
  by code_simp

text \<open>
  Claim C5. A bootstrap round that returns leaves every entry of the dictionary as it was
  or larger by 1; \<open>i\<close> rounds leave it between its old value and its old value plus
  \<open>i\<close>; started from the dictionary of zeros, the keys are still the pairs of
  \<^verbatim>\<open>allpairs(nodes)\<close> and every entry lies between 0 and \<open>i\<close>.
\<close>

theorem edge_frequency_bounds:
  "(bootstrap_round argv fs gl = Inr gl' \<longrightarrow>
      (\<forall>k n. map_of (dict gl) k = Some n \<longrightarrow>
         (\<exists>n'. map_of (dict gl') k = Some n' \<and> n \<le> n' \<and> n' \<le> n + 1)))
   \<and> (bootstrap i argv fs gl = Inr gl'' \<longrightarrow>
      (\<forall>k n. map_of (dict gl) k = Some n \<longrightarrow>
         (\<exists>n'. map_of (dict gl'') k = Some n' \<and> n \<le> n' \<and> n' \<le> n + int i)))
   \<and> (bootstrap i argv fs \<lparr>gen = r, dict = edges_dictionary, last_edge = None\<rparr> = Inr gl3 \<longrightarrow>
      map fst (dict gl3) = allpairs nodes
      \<and> (\<forall>k n'. map_of (dict gl3) k = Some n' \<longrightarrow> 0 \<le> n' \<and> n' \<le> int i))"
proof (intro conjI impI allI)
  show "\<exists>n'. map_of (dict gl') k = Some n' \<and> n \<le> n' \<and> n' \<le> n + 1"
    if "bootstrap_round argv fs gl = Inr gl'" "map_of (dict gl) k = Some n" for k n
    using bootstrap_round_entry [OF that] by auto
  show "\<exists>n'. map_of (dict gl'') k = Some n' \<and> n \<le> n' \<and> n' \<le> n + int i"
    if "bootstrap i argv fs gl = Inr gl''" "map_of (dict gl) k = Some n" for k n
    using that by (rule bootstrap_entry)
  let ?gl = "\<lparr>gen = r, dict = edges_dictionary, last_edge = None\<rparr>"
  assume b: "bootstrap i argv fs ?gl = Inr gl3"
  have keys: "map fst (dict gl3) = map fst edges_dictionary"
    using bootstrap_keys [OF b] by simp
  then show "map fst (dict gl3) = allpairs nodes"
    by (simp add: edges_dictionary_def comp_def)
  show "0 \<le> n'" "n' \<le> int i" if h: "map_of (dict gl3) k = Some n'" for k n'
  proof -
    from h have "k \<in> set (map fst (dict gl3))" using map_of_None_keys [of "dict gl3" k] by auto
    with keys have "map_of edges_dictionary k \<noteq> None" by (simp add: map_of_None_keys)
    then obtain n where n: "map_of edges_dictionary k = Some n" by auto
    then have z: "n = 0" by (rule edges_dictionary_zero)
    from n have "map_of (dict ?gl) k = Some n" by simp
    from bootstrap_entry [OF b this] h z show "0 \<le> n'" "n' \<le> int i" by auto
  qed
qed

theorem edge_frequency_bounds_witness:
  "\<exists>gl' n'. bootstrap 1 [''regier-adapted.py'', ''sets.tsv'']
        [''sets.tsv'' \<mapsto>
           [''Lezgian'' @ [CHR 0x09] @ ''liking'' @ [CHR 0x09] @ ''{LOVE, ANGER}'' @ [CHR 0x0A]]]
        \<lparr>gen = [1], dict = edges_dictionary, last_edge = None\<rparr> = Inr gl'
     \<and> map_of (dict gl') (''LOVE'', ''ANGER'') = Some n' \<and> 0 \<le> n' \<and> n' \<le> 1"
proof -
  let ?argv = "[''regier-adapted.py'', ''sets.tsv'']"
  let ?fs = "[''sets.tsv'' \<mapsto>
    [''Lezgian'' @ [CHR 0x09] @ ''liking'' @ [CHR 0x09] @ ''{LOVE, ANGER}'' @ [CHR 0x0A]]]"
  let ?gl = "\<lparr>gen = [1], dict = edges_dictionary, last_edge = None\<rparr>"
  have "case bootstrap 1 ?argv ?fs ?gl of Inl err \<Rightarrow> False | Inr x \<Rightarrow> True"
    by code_simp
  then obtain gl' where g: "bootstrap 1 ?argv ?fs ?gl = Inr gl'"
    by (cases "bootstrap 1 ?argv ?fs ?gl") auto
  have k: "map_of (dict ?gl) (''LOVE'', ''ANGER'') = Some 0" by code_simp
  from edge_frequency_bounds [of ?argv ?fs ?gl gl' 1 gl'] g k
  show ?thesis by fastforce
qed

text \<open>
  Claim C6. For a dictionary over the pairs of \<^verbatim>\<open>allpairs(nodes)\<close>, whenever the final
  loop returns, the final graph has exactly the twelve nodes; a pair with count \<open>n\<close> is
  an edge exactly when \<open>250 \<le> n\<close>, its weight is the float \<^verbatim>\<open>n / 200\<close>, which differs
  from the quotient by at most the \<open>2 ^ 53\<close>-th part of it; the pair is in the list of
  important links exactly when \<open>500 < n\<close>; a pair that is no key is neither. A count of
  249 is left out, a count of 250 is kept, with weight 5/4. The loop returns whenever no
  count is too large for its quotient to be a float, so for every count a run can reach.
\<close>

theorem final_graph_thresholds:
  assumes "map fst d = allpairs nodes"
  shows "(\<forall>g il. final_graph d = Inr (g, il) \<longrightarrow>
       wnodes g = nodes
       \<and> (\<forall>k n. map_of d k = Some n \<longrightarrow>
             (if 250 \<le> n
              then (\<exists>w. true_div n 200 = Inr w \<and> map_of (wedges g) k = Some w
                      \<and> \<bar>w - of_int n / 200\<bar> \<le> of_int n / 200 / 2 ^ 53)
              else map_of (wedges g) k = None)
             \<and> (k \<in> set il \<longleftrightarrow> 500 < n))
       \<and> (\<forall>k. map_of d k = None \<longrightarrow> map_of (wedges g) k = None \<and> k \<notin> set il)
       \<and> (\<forall>k. map_of d k = Some 249 \<longrightarrow> map_of (wedges g) k = None)
       \<and> (\<forall>k. map_of d k = Some 250 \<longrightarrow> map_of (wedges g) k = Some (250 / 200)))
    \<and> ((\<forall>k n. map_of d k = Some n \<longrightarrow> n < 200 * 2 ^ 1023) \<longrightarrow>
          (\<exists>g il. final_graph d = Inr (g, il)))"
proof (intro conjI allI impI)
  fix g il assume r: "final_graph d = Inr (g, il)"
  note eq = final_graph_eq [OF assms r]
  have g: "g = \<lparr>wnodes = nodes,
      wedges = map (\<lambda>k. (k, weight_of d k)) (filter (kept d) (map fst d))\<rparr>"
    and il: "il = filter (important d) (filter (kept d) (map fst d))"
    using eq(1) by simp_all
  have in_keys: "k \<in> set (map fst d)" if "map_of d k = Some n" for k n
    using that map_of_None_keys [of d k] by auto
  show "wnodes g = nodes" by (simp add: g)
  have some: "(if 250 \<le> n
              then (\<exists>w. true_div n 200 = Inr w \<and> map_of (wedges g) k = Some w
                      \<and> \<bar>w - of_int n / 200\<bar> \<le> of_int n / 200 / 2 ^ 53)
              else map_of (wedges g) k = None)
             \<and> (k \<in> set il \<longleftrightarrow> 500 < n)" if h: "map_of d k = Some n" for k n
  proof (cases "250 \<le> n")
    case True
    from eq(2) in_keys [OF h] h True obtain w where w: "true_div n 200 = Inr w" by fastforce
    have "map_of (wedges g) k = Some w"
      using h in_keys [OF h] True w by (simp add: g map_of_graph kept_def weight_of_def)
    moreover have "\<bar>w - of_int n / 200\<bar> \<le> of_int n / 200 / 2 ^ 53"
      using True w by (rule true_div_200_error)
    moreover have "k \<in> set il \<longleftrightarrow> 500 < n"
      using h in_keys [OF h] True by (auto simp: il kept_def important_def)
    ultimately show ?thesis using True w by simp
  next
    case False
    then show ?thesis
      using h by (auto simp: g il map_of_graph kept_def important_def)
  qed
  show "(if 250 \<le> n
              then (\<exists>w. true_div n 200 = Inr w \<and> map_of (wedges g) k = Some w
                      \<and> \<bar>w - of_int n / 200\<bar> \<le> of_int n / 200 / 2 ^ 53)
              else map_of (wedges g) k = None)" if "map_of d k = Some n" for k n
    using some [OF that] by blast
  show "k \<in> set il \<longleftrightarrow> 500 < n" if "map_of d k = Some n" for k n
    using some [OF that] by blast
  show "map_of (wedges g) k = None" if h: "map_of d k = None" for k
    using h by (simp add: g map_of_graph kept_def)
  show "k \<notin> set il" if h: "map_of d k = None" for k
    using h by (simp add: il kept_def important_def)
  show "map_of (wedges g) k = None" if "map_of d k = Some 249" for k
    using some [OF that] by simp
  show "map_of (wedges g) k = Some (250 / 200)" if h: "map_of d k = Some 250" for k
  proof -
    have "\<exists>w. true_div 250 200 = Inr w \<and> map_of (wedges g) k = Some w
        \<and> \<bar>w - of_int 250 / 200\<bar> \<le> of_int 250 / 200 / 2 ^ 53"
      using some [OF h] by (simp only: order_refl if_True)
    then obtain w where "true_div 250 200 = Inr w" "map_of (wedges g) k = Some w" by blast
    then show ?thesis by (simp only: true_div_250 sum.inject)
  qed
next
  assume "\<forall>k n. map_of d k = Some n \<longrightarrow> n < 200 * 2 ^ 1023"
  from final_graph_returns [OF this] show "\<exists>g il. final_graph d = Inr (g, il)" by auto
qed

theorem final_graph_thresholds_witness:
  "\<exists>g il. final_graph (AList.update (''LOVE'', ''ANGER'') 251 edges_dictionary) = Inr (g, il)
     \<and> map_of (wedges g) (''LOVE'', ''ANGER'') = Some (1413004383087493 / 1125899906842624)"
proof -
  let ?d = "AList.update (''LOVE'', ''ANGER'') 251 edges_dictionary"
  have h: "map fst ?d = allpairs nodes" by code_simp
  have m: "map_of ?d (''LOVE'', ''ANGER'') = Some 251" by code_simp
  have t: "true_div 251 200 = Inr (1413004383087493 / 1125899906842624)" by code_simp
  have "list_all (\<lambda>x. snd x < 200 * 2 ^ 1023) ?d" by code_simp
  then have a: "\<forall>x \<in> set ?d. snd x < 200 * 2 ^ 1023" by (simp only: list_all_iff)
  have b: "\<forall>k n. map_of ?d k = Some n \<longrightarrow> n < 200 * 2 ^ 1023"
  proof (intro allI impI)
    fix k n assume "map_of ?d k = Some n"
    then have "(k, n) \<in> set ?d" by (rule map_of_SomeD)
    with a have "snd (k, n) < 200 * 2 ^ 1023" by (rule bspec)
    then show "n < 200 * 2 ^ 1023" by (simp only: snd_conv)
  qed
  from final_graph_thresholds [OF h] b obtain g il where r: "final_graph ?d = Inr (g, il)"
    by blast
  from final_graph_thresholds [OF h] r m t
  have "map_of (wedges g) (''LOVE'', ''ANGER'') = Some (1413004383087493 / 1125899906842624)"
    by fastforce
  with r show ?thesis by blast
qed

text \<open>
  Claim C8 does not hold of the script. Started with two positional arguments, it prints
  the usage line and goes on: here, on an empty file, through all 1000 bootstrap rounds
  to the final graph and exit status 0. Started with none, it prints the usage line,
  draws the first sample and only then ends, with \<^verbatim>\<open>IndexError\<close> at \<^verbatim>\<open>sys.argv[1]\<close>.
\<close>

theorem main_goes_on_after_usage:
  "main [''regier-adapted.py'', ''sets.tsv'', ''extra''] [''sets.tsv'' \<mapsto> []] []
     = \<lparr>usage_printed = True, outcome = Inr (\<lparr>wnodes = nodes, wedges = []\<rparr>, [])\<rparr>
   \<and> exit_status (main [''regier-adapted.py'', ''sets.tsv'', ''extra''] [''sets.tsv'' \<mapsto> []] []) = 0
   \<and> main [''regier-adapted.py''] Map.empty []
     = \<lparr>usage_printed = True, outcome = Inl IndexError\<rparr>"
proof -
  let ?argv = "[''regier-adapted.py'', ''sets.tsv'', ''extra'']"
  let ?fs = "[''sets.tsv'' \<mapsto> ([] :: string list)]"
  let ?gl = "\<lparr>gen = [], dict = edges_dictionary, last_edge = None\<rparr>"
  have "bootstrap 1000 ?argv ?fs ?gl = Inr ?gl"
    by (rule bootstrap_empty_file [where fs = ?fs and argv = ?argv and gl = ?gl]) simp_all
  then have 1: "main ?argv ?fs [] =
      \<lparr>usage_printed = True, outcome = Inr (\<lparr>wnodes = nodes, wedges = []\<rparr>, [])\<rparr>"
    by (simp add: main_def final_graph_no_counts)
  have "bootstrap_round [''regier-adapted.py''] Map.empty ?gl = Inl IndexError"
    by (rule bootstrap_round_no_argument) simp
  then have "bootstrap 1000 [''regier-adapted.py''] Map.empty ?gl = Inl IndexError"
    by (rule bootstrap_first_round_fails) simp
  then have 2: "main [''regier-adapted.py''] Map.empty [] =
      \<lparr>usage_printed = True, outcome = Inl IndexError\<rparr>"
    by (simp add: main_def)
  from 1 2 show ?thesis by (simp add: exit_status_def)
qed

end
